theory Spec2Isabelle
  imports Complex_Main "HOL-Library.Signed_Division"
begin

unbundle bit_operations_syntax

section \<open>Strings and the C library\<close>

text \<open>
  The builders read their configuration as strings and take them apart with
  \<^verbatim>\<open>std::string::find\<close>, \<^verbatim>\<open>substr\<close>, \<^verbatim>\<open>operator>>\<close> on a string stream and
  \<^verbatim>\<open>atoi\<close>. A C++ \<^verbatim>\<open>int\<close> is modelled as a mathematical integer wherever its value
  is bounded by the node or channel count of the network under construction; the one
  product that is not so bounded (in \<^verbatim>\<open>UniTorus::Capacity\<close>) wraps around at 32 bits.
  Division and remainder truncate towards zero (\<open>sdiv\<close>, \<open>smod\<close>).
\<close>

definition isspace :: "char \<Rightarrow> bool" where
  "isspace c \<longleftrightarrow> c \<in> set [CHR '' '', CHR 0x09, CHR 0x0A, CHR 0x0B, CHR 0x0C, CHR 0x0D]"

definition isdigit :: "char \<Rightarrow> bool" where
  "isdigit c \<longleftrightarrow> c \<in> set ''0123456789''"

text \<open>The value of a decimal digit is its position in \<open>0123456789\<close>.\<close>

definition digit_val :: "char \<Rightarrow> int" where
  "digit_val c = int (length (takeWhile (\<lambda>d. d \<noteq> c) ''0123456789''))"

definition digits_value :: "string \<Rightarrow> int" where
  "digits_value ds = foldl (\<lambda>acc d. acc * 10 + digit_val d) 0 ds"

text \<open>
  \<^verbatim>\<open>atoi\<close>: leading white space is skipped, one optional sign is read, then the longest
  run of digits; no digits give 0. (A numeral beyond the range of \<^verbatim>\<open>int\<close> is undefined
  in C; the model returns its mathematical value.)
\<close>

definition atoi :: "string \<Rightarrow> int" where
  "atoi s =
     (let t = dropWhile isspace s in
      case t of
        [] \<Rightarrow> 0
      | c # r \<Rightarrow>
          if c = CHR ''-'' then - digits_value (takeWhile isdigit r)
          else if c = CHR ''+'' then digits_value (takeWhile isdigit r)
          else digits_value (takeWhile isdigit t))"

text \<open>
  The comma loop \<^verbatim>\<open>q = s.find(',', p); t = s.substr(p, q - p); p = q + 1\<close>: the pieces
  between the commas, empty ones included; a string with \<open>k\<close> commas has \<open>k + 1\<close> pieces.
\<close>

fun split_loop :: "string \<Rightarrow> string \<Rightarrow> string list" where
  "split_loop cur [] = [cur]"
| "split_loop cur (c # cs) =
     (if c = CHR '','' then cur # split_loop [] cs else split_loop (cur @ [c]) cs)"

definition split_commas :: "string \<Rightarrow> string list" where
  "split_commas s = split_loop [] s"

text \<open>\<^verbatim>\<open>while (ss >> tok)\<close>: the maximal runs of characters that are not white space.\<close>

fun stream_loop :: "string \<Rightarrow> string \<Rightarrow> string list" where
  "stream_loop cur [] = (if cur = [] then [] else [cur])"
| "stream_loop cur (c # cs) =
     (if isspace c then (if cur = [] then [] else [cur]) @ stream_loop [] cs
      else stream_loop (cur @ [c]) cs)"

definition stream_tokens :: "string \<Rightarrow> string list" where
  "stream_tokens s = stream_loop [] s"

text \<open>
  Trimming with \<^verbatim>\<open>find_first_not_of(" \t")\<close> and \<^verbatim>\<open>find_last_not_of(" \t")\<close>: blanks
  and tabs are dropped at both ends; a token of blanks only becomes empty.
\<close>

definition is_blank :: "char \<Rightarrow> bool" where
  "is_blank c \<longleftrightarrow> c = CHR '' '' \<or> c = CHR 0x09"

definition trim :: "string \<Rightarrow> string" where
  "trim t = rev (dropWhile is_blank (rev (dropWhile is_blank t)))"

text \<open>One leading \<open>{\<close> and then one trailing \<open>}\<close> are removed if present.\<close>

definition strip_braces :: "string \<Rightarrow> string" where
  "strip_braces s =
     (let s1 = (if s \<noteq> [] \<and> hd s = CHR ''{'' then tl s else s)
      in if s1 \<noteq> [] \<and> last s1 = CHR ''}'' then butlast s1 else s1)"

text \<open>The trimmed, non-empty pieces of a brace-stripped comma list.\<close>

definition trimmed_tokens :: "string \<Rightarrow> string list" where
  "trimmed_tokens str = filter (\<lambda>t. t \<noteq> []) (map trim (split_commas (strip_braces str)))"

section \<open>Configuration, errors and globals\<close>

type_synonym configuration = "string \<rightharpoonup> string"

text \<open>
  Modelled from the spec: the class \<^verbatim>\<open>Configuration\<close> belongs to the simulator
  around the two builders; they consume an already parsed key to string map, and a key
  that is missing reads as the empty string.
\<close>

definition GetStr :: "configuration \<Rightarrow> string \<Rightarrow> string" where
  "GetStr config field = (case config field of None \<Rightarrow> [] | Some v \<Rightarrow> v)"

text \<open>Every \<^verbatim>\<open>exit(-1)\<close> of the builders is one error value.\<close>

datatype error =
    Cake_dim_sizes_too_few
  | Cake_dim_sizes_required
  | Cake_invalid_sizes int int int
  | Elevator_out_of_range int int
  | Mapping_wrong_count int nat
  | Mapping_out_of_range int int int int
  | Dim_sizes_unspecified
  | Dim_size_not_positive string
  | Count_mismatch string nat nat
  | Value_not_positive string string
  | Value_negative string string

text \<open>The routing functions are external; the registry only stores which one a name denotes.\<close>

datatype tRoutingFunction = dim_order_unitorus

record globals =
  gK :: int
  gN :: int
  gDimSizes :: "int list"
  gRoutingFunctionMap :: "string \<rightharpoonup> tRoutingFunction"

section \<open>Routers\<close>

text \<open>
  Channels are owned by the network; a router refers to them. \<open>chan n\<close> is
  \<^verbatim>\<open>_chan[n]\<close>, \<open>inject n\<close> is \<^verbatim>\<open>_inject[n]\<close>, \<open>eject n\<close> is \<^verbatim>\<open>_eject[n]\<close>, and likewise
  for the credit channels.
\<close>

datatype FlitChannel = chan int | inject int | eject int

datatype CreditChannel = chan_cred int | inject_cred int | eject_cred int

record router =
  r_id :: int
  r_inputs :: int
  r_outputs :: int
  input_channels :: "FlitChannel list"
  input_credits :: "CreditChannel list"
  output_channels :: "FlitChannel list"
  output_credits :: "CreditChannel list"
  cake_x_size :: int
  cake_y_size :: int
  cake_layers :: int
  cake_x :: int
  cake_y :: int
  cake_z :: int
  cake_elvx :: int
  cake_elvy :: int
  cake_port_xp :: int
  cake_port_yp :: int
  cake_port_zup :: int
  cake_port_zdn :: int
  cake_port_eject :: int

text \<open>
  Modelled from the spec: the header declares the constructor and the two
  \<^verbatim>\<open>Add...Channel\<close> methods and leaves their bodies to the router's implementation
  file. A new router has the port counts it was given, no channels, and the metadata
  defaults of the class declaration; adding a channel appends it, so that it is
  registered under the index \<^verbatim>\<open>OutputIndexCount()\<close> had before the call.
\<close>

definition NewRouter :: "int \<Rightarrow> int \<Rightarrow> int \<Rightarrow> router" where
  "NewRouter ident inputs outputs =
     \<lparr> r_id = ident, r_inputs = inputs, r_outputs = outputs,
       input_channels = [], input_credits = [],
       output_channels = [], output_credits = [],
       cake_x_size = 0, cake_y_size = 0, cake_layers = 0,
       cake_x = -1, cake_y = -1, cake_z = -1,
       cake_elvx = -1, cake_elvy = -1,
       cake_port_xp = -1, cake_port_yp = -1, cake_port_zup = -1, cake_port_zdn = -1,
       cake_port_eject = -1 \<rparr>"

definition AddInputChannel :: "router \<Rightarrow> FlitChannel \<Rightarrow> CreditChannel \<Rightarrow> router" where
  "AddInputChannel r channel backchannel =
     r\<lparr> input_channels := input_channels r @ [channel],
        input_credits := input_credits r @ [backchannel] \<rparr>"

definition AddOutputChannel :: "router \<Rightarrow> FlitChannel \<Rightarrow> CreditChannel \<Rightarrow> router" where
  "AddOutputChannel r channel backchannel =
     r\<lparr> output_channels := output_channels r @ [channel],
        output_credits := output_credits r @ [backchannel] \<rparr>"

definition OutputIndexCount :: "router \<Rightarrow> int" where
  "OutputIndexCount r = int (length (output_channels r))"

text \<open>The assertion of \<^verbatim>\<open>GetOutputChannel\<close> and the bounds of the vector are the failure.\<close>

definition GetOutputChannel :: "router \<Rightarrow> int \<Rightarrow> FlitChannel option" where
  "GetOutputChannel r output =
     (if 0 \<le> output \<and> output < r_outputs r \<and> nat output < length (output_channels r)
      then Some (output_channels r ! nat output) else None)"

definition SetCakeSizes :: "router \<Rightarrow> int \<Rightarrow> int \<Rightarrow> int \<Rightarrow> router" where
  "SetCakeSizes r xs ys ls = r\<lparr> cake_x_size := xs, cake_y_size := ys, cake_layers := ls \<rparr>"

definition SetCakeXYZ :: "router \<Rightarrow> int \<Rightarrow> int \<Rightarrow> int \<Rightarrow> router" where
  "SetCakeXYZ r x y z = r\<lparr> cake_x := x, cake_y := y, cake_z := z \<rparr>"

definition SetCakeElevatorTarget :: "router \<Rightarrow> int \<Rightarrow> int \<Rightarrow> router" where
  "SetCakeElevatorTarget r ex ey = r\<lparr> cake_elvx := ex, cake_elvy := ey \<rparr>"

definition SetCakePortXPlus :: "router \<Rightarrow> int \<Rightarrow> router" where
  "SetCakePortXPlus r p = r\<lparr> cake_port_xp := p \<rparr>"

definition SetCakePortYPlus :: "router \<Rightarrow> int \<Rightarrow> router" where
  "SetCakePortYPlus r p = r\<lparr> cake_port_yp := p \<rparr>"

definition SetCakePortZUp :: "router \<Rightarrow> int \<Rightarrow> router" where
  "SetCakePortZUp r p = r\<lparr> cake_port_zup := p \<rparr>"

definition SetCakePortZDown :: "router \<Rightarrow> int \<Rightarrow> router" where
  "SetCakePortZDown r p = r\<lparr> cake_port_zdn := p \<rparr>"

definition SetCakePortEject :: "router \<Rightarrow> int \<Rightarrow> router" where
  "SetCakePortEject r p = r\<lparr> cake_port_eject := p \<rparr>"

section \<open>Networks\<close>

text \<open>
  The base class holds the sizes and the router table \<^verbatim>\<open>_routers\<close>, indexed by node
  id; an index without a router object is \<open>None\<close>. A method call through
  \<^verbatim>\<open>_routers[i]->\<close> updates the router stored at \<open>i\<close>.
\<close>

record network =
  m_size :: int
  m_nodes :: int
  m_channels :: int
  m_routers :: "int \<Rightarrow> router option"

definition upd_router ::
  "(int \<Rightarrow> router option) \<Rightarrow> int \<Rightarrow> (router \<Rightarrow> router) \<Rightarrow> (int \<Rightarrow> router option)" where
  "upd_router rs i f = rs(i := map_option f (rs i))"


section \<open>Cake\<close>

record cake = network +
  m_x :: int
  m_y :: int
  m_layers :: int
  m_elevators :: "(int \<times> int) list"
  m_elevator_index :: "int \<rightharpoonup> int"
  m_elevator_map :: "(int \<times> int) list list"
  m_inplane_channels :: int
  m_vertical_channels :: int

subsection \<open>Sizing\<close>

text \<open>
  \<^verbatim>\<open>Cake::_ComputeSize\<close>, the part after the tokens have been gathered: the length
  check, the three sizes, the positivity check, the two global hints and the counts.
  The elevator tables are still empty and no router exists yet. The integers of a
  Cake are unbounded here: where \<open>X * Y * Z\<close> leaves the range of an \<^verbatim>\<open>int\<close> the
  wiring loops of \<^verbatim>\<open>_BuildNet\<close> run past the router array and no network is returned.
\<close>

definition Cake_sizes_of_tokens :: "string list \<Rightarrow> globals \<Rightarrow> error + (cake \<times> globals)" where
  "Cake_sizes_of_tokens toks g =
     (if length toks < 2 then Inl Cake_dim_sizes_too_few
      else
        let x = atoi (toks ! 0);
            y = atoi (toks ! 1);
            layers = (if length toks \<ge> 3 then atoi (toks ! 2) else 1)
        in if x \<le> 0 \<or> y \<le> 0 \<or> layers \<le> 0 then Inl (Cake_invalid_sizes x y layers)
           else
             let size = x * y * layers
             in Inr (\<lparr> m_size = size, m_nodes = size, m_channels = -1,
                       m_routers = (\<lambda>_. None),
                       m_x = x, m_y = y, m_layers = layers,
                       m_elevators = [], m_elevator_index = Map.empty, m_elevator_map = [],
                       m_inplane_channels = size * 2, m_vertical_channels = 0 \<rparr>,
                     g\<lparr> gK := x, gN := 2 \<rparr>))"

definition Cake_ComputeSize :: "configuration \<Rightarrow> globals \<Rightarrow> error + (cake \<times> globals)" where
  "Cake_ComputeSize config g =
     (let dim_sizes_str = GetStr config ''dim_sizes''
      in if dim_sizes_str \<noteq> [] then Cake_sizes_of_tokens (trimmed_tokens dim_sizes_str) g
         else Inl Cake_dim_sizes_required)"

subsection \<open>Elevators\<close>

text \<open>\<^verbatim>\<open>(static_cast<long long>(x) << 32) | static_cast<unsigned int>(y)\<close>\<close>

definition Cake_Key :: "int \<Rightarrow> int \<Rightarrow> int" where
  "Cake_Key x y = push_bit 32 x OR (y mod 2 ^ 32)"

text \<open>
  The loop over the tokens of \<^verbatim>\<open>elevator_coords\<close>: a token without a comma is
  skipped, a coordinate out of range is fatal, and a pair is appended unless its key
  is already in the index.
\<close>

fun elevator_loop ::
  "int \<Rightarrow> int \<Rightarrow> string list \<Rightarrow> (int \<times> int) list \<times> (int \<rightharpoonup> int) \<Rightarrow>
   error + ((int \<times> int) list \<times> (int \<rightharpoonup> int))" where
  "elevator_loop X Y [] st = Inr st"
| "elevator_loop X Y (t # ts) (elevators, index) =
     (if CHR '','' \<notin> set t then elevator_loop X Y ts (elevators, index)
      else
        let ex = atoi (takeWhile (\<lambda>c. c \<noteq> CHR '','') t);
            ey = atoi (tl (dropWhile (\<lambda>c. c \<noteq> CHR '','') t))
        in if ex < 0 \<or> ex \<ge> X \<or> ey < 0 \<or> ey \<ge> Y then Inl (Elevator_out_of_range ex ey)
           else
             let key = Cake_Key ex ey
             in if index key = None
                then elevator_loop X Y ts
                       (elevators @ [(ex, ey)], index(key \<mapsto> int (length elevators)))
                else elevator_loop X Y ts (elevators, index))"

definition braces_to_spaces :: "string \<Rightarrow> string" where
  "braces_to_spaces s = map (\<lambda>c. if c = CHR ''{'' \<or> c = CHR ''}'' then CHR '' '' else c) s"

definition brackets_to_spaces :: "string \<Rightarrow> string" where
  "brackets_to_spaces s =
     map (\<lambda>c. if c = CHR ''{'' \<or> c = CHR ''}'' \<or> c = CHR ''['' \<or> c = CHR '']''
              then CHR '' '' else c) s"

text \<open>The integers one stream token of \<^verbatim>\<open>elevator_mapping_coords\<close> contributes.\<close>

definition mapping_token_nums :: "string \<Rightarrow> int list" where
  "mapping_token_nums tok =
     (if tok = '','' then []
      else
        let tok1 = (if tok \<noteq> [] \<and> last tok = CHR '','' then butlast tok else tok)
        in if tok1 = [] then []
           else if tok1 = '','' then []
           else map atoi (filter (\<lambda>part. part \<noteq> []) (split_commas tok1)))"

definition mapping_nums :: "string \<Rightarrow> int list" where
  "mapping_nums map_str =
     concat (map mapping_token_nums (stream_tokens (brackets_to_spaces map_str)))"

text \<open>
  The two nested loops that fill \<^verbatim>\<open>_elevator_map\<close> from the numbers; the state is the
  running index \<open>idx\<close> and the table.
\<close>

fun mapping_row_loop ::
  "int \<Rightarrow> int \<Rightarrow> int list \<Rightarrow> int \<Rightarrow> int list \<Rightarrow> nat \<times> (int \<times> int) list list \<Rightarrow>
   error + (nat \<times> (int \<times> int) list list)" where
  "mapping_row_loop X Y nums ry [] st = Inr st"
| "mapping_row_loop X Y nums ry (rx # rxs) (idx, emap) =
     (let ex = nums ! idx; ey = nums ! (idx + 1)
      in if ex < 0 \<or> ex \<ge> X \<or> ey < 0 \<or> ey \<ge> Y then Inl (Mapping_out_of_range rx ry ex ey)
         else mapping_row_loop X Y nums ry rxs
                (idx + 2, emap[nat ry := (emap ! nat ry)[nat rx := (ex, ey)]]))"

fun mapping_loop ::
  "int \<Rightarrow> int \<Rightarrow> int list \<Rightarrow> int list \<Rightarrow> nat \<times> (int \<times> int) list list \<Rightarrow>
   error + (nat \<times> (int \<times> int) list list)" where
  "mapping_loop X Y nums [] st = Inr st"
| "mapping_loop X Y nums (ry # rys) st =
     (case mapping_row_loop X Y nums ry [0..X - 1] st of
        Inl e \<Rightarrow> Inl e
      | Inr st' \<Rightarrow> mapping_loop X Y nums rys st')"

definition identity_mapping :: "int \<Rightarrow> int \<Rightarrow> (int \<times> int) list list \<Rightarrow> (int \<times> int) list list" where
  "identity_mapping X Y emap =
     fold (\<lambda>ry. fold (\<lambda>rx em. em[nat ry := (em ! nat ry)[nat rx := (rx, ry)]]) [0..X - 1])
       [0..Y - 1] emap"

text \<open>
  \<^verbatim>\<open>Cake::_ParseElevators\<close> has three parts: the elevator list with its index, the
  mapping table, and the channel counts.
\<close>

definition Cake_parse_elevator_coords ::
  "configuration \<Rightarrow> cake \<Rightarrow> error + ((int \<times> int) list \<times> (int \<rightharpoonup> int))" where
  "Cake_parse_elevator_coords config c =
     (let elev_str0 = GetStr config ''elevator_coords'';
          elev_str = (if elev_str0 = [] then GetStr config ''elevatorcoords'' else elev_str0)
      in if elev_str = [] then Inr ([], Map.empty)
         else elevator_loop (m_x c) (m_y c)
                (stream_tokens (braces_to_spaces elev_str)) ([], Map.empty))"

definition mapping_string :: "configuration \<Rightarrow> string" where
  "mapping_string config =
     (let map_str0 = GetStr config ''elevator_mapping_coords''
      in if map_str0 = [] then GetStr config ''elevatormapping'' else map_str0)"

definition Cake_parse_elevator_mapping ::
  "configuration \<Rightarrow> cake \<Rightarrow> error + (int \<times> int) list list" where
  "Cake_parse_elevator_mapping config c =
     (let map_str = mapping_string config;
          emap0 = replicate (nat (m_y c)) (replicate (nat (m_x c)) (0, 0))
      in if map_str \<noteq> [] then
           let nums = mapping_nums map_str
           in if int (length nums) \<noteq> m_x c * m_y c * 2
              then Inl (Mapping_wrong_count (m_x c * m_y c * 2) (length nums))
              else (case mapping_loop (m_x c) (m_y c) nums [0..m_y c - 1] (0, emap0) of
                      Inl e \<Rightarrow> Inl e
                    | Inr (idx, emap) \<Rightarrow> Inr emap)
         else Inr (identity_mapping (m_x c) (m_y c) emap0))"

definition Cake_ParseElevators :: "configuration \<Rightarrow> cake \<Rightarrow> error + cake" where
  "Cake_ParseElevators config c =
     (case Cake_parse_elevator_coords config c of
        Inl e \<Rightarrow> Inl e
      | Inr (elevators, index) \<Rightarrow>
          (case Cake_parse_elevator_mapping config c of
             Inl e \<Rightarrow> Inl e
           | Inr emap \<Rightarrow>
               let E = int (length elevators);
                   vertical = E * m_layers c * 2
               in Inr (c\<lparr> m_elevators := elevators, m_elevator_index := index,
                          m_elevator_map := emap, m_vertical_channels := vertical,
                          m_channels := m_inplane_channels c + vertical \<rparr>)))"

subsection \<open>Node and channel numbering\<close>

definition Cake_NodeId :: "cake \<Rightarrow> int \<Rightarrow> int \<Rightarrow> int \<Rightarrow> int" where
  "Cake_NodeId c x y z = z * (m_x c * m_y c) + y * m_x c + x"

definition Cake_IdToXYZ :: "cake \<Rightarrow> int \<Rightarrow> int \<times> int \<times> int" where
  "Cake_IdToXYZ c ident =
     (let plane = m_x c * m_y c;
          z = ident sdiv plane;
          rem = ident smod plane;
          y = rem sdiv m_x c;
          x = rem smod m_x c
      in (x, y, z))"

definition Cake_InplaneChannel :: "cake \<Rightarrow> int \<Rightarrow> int \<Rightarrow> int" where
  "Cake_InplaneChannel c node dm = node * 2 + dm"

definition Cake_UpChannel :: "cake \<Rightarrow> int \<Rightarrow> int \<Rightarrow> int" where
  "Cake_UpChannel c elev_idx layer =
     m_inplane_channels c + (elev_idx * m_layers c + layer) * 2 + 0"

definition Cake_DownChannel :: "cake \<Rightarrow> int \<Rightarrow> int \<Rightarrow> int" where
  "Cake_DownChannel c elev_idx layer =
     m_inplane_channels c + (elev_idx * m_layers c + layer) * 2 + 1"

subsection \<open>Building the network\<close>

text \<open>The body of the first loop of \<^verbatim>\<open>Cake::_BuildNet\<close>: one router with its metadata.\<close>

definition create_router :: "cake \<Rightarrow> int \<Rightarrow> (int \<Rightarrow> router option) \<Rightarrow> (int \<Rightarrow> router option)" where
  "create_router c ident rs =
     (case Cake_IdToXYZ c ident of (x, y, z) \<Rightarrow>
        let is_elev = (m_elevator_index c (Cake_Key x y) \<noteq> None);
            net_ports = 2 + (if is_elev then 2 else 0);
            in_cnt = net_ports + 1;
            out_cnt = net_ports + 1;
            rs1 = rs(ident \<mapsto> NewRouter ident in_cnt out_cnt);
            rs2 = upd_router rs1 ident (\<lambda>r. SetCakeSizes r (m_x c) (m_y c) (m_layers c));
            rs3 = upd_router rs2 ident (\<lambda>r. SetCakeXYZ r x y z);
            pref = m_elevator_map c ! nat y ! nat x
        in upd_router rs3 ident (\<lambda>r. SetCakeElevatorTarget r (fst pref) (snd pref)))"

text \<open>
  The bodies of the wiring loops. Each reads \<^verbatim>\<open>OutputIndexCount()\<close> of the source
  router, adds the output there, stores the index read before, and adds the channel
  as an input of the destination router.
\<close>

definition connect_xplus ::
  "cake \<Rightarrow> int \<Rightarrow> int \<Rightarrow> int \<Rightarrow> (int \<Rightarrow> router option) \<Rightarrow> (int \<Rightarrow> router option)" where
  "connect_xplus c z y x rs =
     (let from = Cake_NodeId c x y z;
          to = Cake_NodeId c ((x + 1) smod m_x c) y z;
          ch = Cake_InplaneChannel c from 0;
          rs1 = upd_router rs from
                  (\<lambda>r. let out_idx = OutputIndexCount r
                       in SetCakePortXPlus (AddOutputChannel r (chan ch) (chan_cred ch)) out_idx)
      in upd_router rs1 to (\<lambda>r. AddInputChannel r (chan ch) (chan_cred ch)))"

definition connect_yplus ::
  "cake \<Rightarrow> int \<Rightarrow> int \<Rightarrow> int \<Rightarrow> (int \<Rightarrow> router option) \<Rightarrow> (int \<Rightarrow> router option)" where
  "connect_yplus c z y x rs =
     (let from = Cake_NodeId c x y z;
          to = Cake_NodeId c x ((y + 1) smod m_y c) z;
          ch = Cake_InplaneChannel c from 1;
          rs1 = upd_router rs from
                  (\<lambda>r. let out_idx = OutputIndexCount r
                       in SetCakePortYPlus (AddOutputChannel r (chan ch) (chan_cred ch)) out_idx)
      in upd_router rs1 to (\<lambda>r. AddInputChannel r (chan ch) (chan_cred ch)))"

definition connect_vertical ::
  "cake \<Rightarrow> nat \<Rightarrow> int \<Rightarrow> (int \<Rightarrow> router option) \<Rightarrow> (int \<Rightarrow> router option)" where
  "connect_vertical c ei z rs =
     (let ex = fst (m_elevators c ! ei);
          ey = snd (m_elevators c ! ei);
          from = Cake_NodeId c ex ey z;
          to_up = Cake_NodeId c ex ey ((z + 1) smod m_layers c);
          ch_u = Cake_UpChannel c (int ei) z;
          rs1 = upd_router rs from
                  (\<lambda>r. let out_idx_u = OutputIndexCount r
                       in SetCakePortZUp (AddOutputChannel r (chan ch_u) (chan_cred ch_u)) out_idx_u);
          rs2 = upd_router rs1 to_up (\<lambda>r. AddInputChannel r (chan ch_u) (chan_cred ch_u));
          to_dn = Cake_NodeId c ex ey ((z - 1 + m_layers c) smod m_layers c);
          ch_d = Cake_DownChannel c (int ei) z;
          rs3 = upd_router rs2 from
                  (\<lambda>r. let out_idx_d = OutputIndexCount r
                       in SetCakePortZDown (AddOutputChannel r (chan ch_d) (chan_cred ch_d)) out_idx_d)
      in upd_router rs3 to_dn (\<lambda>r. AddInputChannel r (chan ch_d) (chan_cred ch_d)))"

definition attach_node :: "int \<Rightarrow> (int \<Rightarrow> router option) \<Rightarrow> (int \<Rightarrow> router option)" where
  "attach_node ident rs =
     (let rs1 = upd_router rs ident (\<lambda>r. AddInputChannel r (inject ident) (inject_cred ident))
      in upd_router rs1 ident
           (\<lambda>r. let out_idx_ej = OutputIndexCount r
                in SetCakePortEject (AddOutputChannel r (eject ident) (eject_cred ident)) out_idx_ej))"

text \<open>
  \<^verbatim>\<open>Cake::_BuildNet\<close>: the five loops in the order of the source. A loop
  \<^verbatim>\<open>for (int i = 0; i < n; ++i)\<close> is a fold over \<open>[0..n - 1]\<close>. Channel latencies and
  router names are not part of the model.
\<close>

definition Cake_BuildNet :: "cake \<Rightarrow> cake" where
  "Cake_BuildNet c =
     (let rs0 = fold (create_router c) [0..m_size c - 1] (m_routers c);
          rs1 = fold (\<lambda>z. fold (\<lambda>y. fold (\<lambda>x. connect_xplus c z y x) [0..m_x c - 1])
                               [0..m_y c - 1])
                  [0..m_layers c - 1] rs0;
          rs2 = fold (\<lambda>z. fold (\<lambda>y. fold (\<lambda>x. connect_yplus c z y x) [0..m_x c - 1])
                               [0..m_y c - 1])
                  [0..m_layers c - 1] rs1;
          rs3 = fold (\<lambda>ei. fold (\<lambda>z. connect_vertical c ei z) [0..m_layers c - 1])
                  [0..<length (m_elevators c)] rs2;
          rs4 = fold attach_node [0..m_size c - 1] rs3
      in c\<lparr> m_routers := rs4 \<rparr>)"

text \<open>
  The constructor: sizes, then elevators, then the build; the first error ends it.
  (\<^verbatim>\<open>_Alloc\<close> of the base class creates the channel objects and the empty router table.)
\<close>

definition Cake :: "configuration \<Rightarrow> globals \<Rightarrow> error + (cake \<times> globals)" where
  "Cake config g =
     (case Cake_ComputeSize config g of
        Inl e \<Rightarrow> Inl e
      | Inr (c1, g1) \<Rightarrow>
          (case Cake_ParseElevators config c1 of
             Inl e \<Rightarrow> Inl e
           | Inr c2 \<Rightarrow> Inr (Cake_BuildNet c2, g1)))"

definition Cake_RegisterRoutingFunctions :: "globals \<Rightarrow> globals" where
  "Cake_RegisterRoutingFunctions g = g"


section \<open>UniTorus\<close>

record unitorus = network +
  m_dim_sizes :: "int list"
  m_dim_bandwidth :: "int list"
  m_dim_latency :: "int list"
  m_dim_penalty :: "int list"

subsection \<open>Machine integers\<close>

text \<open>
  The value a 32-bit \<^verbatim>\<open>int\<close> holds after an arithmetic result \<open>v\<close> has wrapped around.
  The sizes, node ids and multipliers of a UniTorus are \<^verbatim>\<open>int\<close>s, and nothing bounds
  the product of the dimension sizes: every product and sum of the code that can leave
  the range is wrapped below.
\<close>

definition int32_wrap :: "int \<Rightarrow> int" where
  "int32_wrap v = (v + 2 ^ 31) mod 2 ^ 32 - 2 ^ 31"

subsection \<open>Sizing\<close>

fun dim_sizes_loop :: "string list \<Rightarrow> int list \<Rightarrow> error + int list" where
  "dim_sizes_loop [] dim_sizes = Inr dim_sizes"
| "dim_sizes_loop (token # tokens) dim_sizes =
     (let dim_size = atoi token
      in if dim_size \<le> 0 then Inl (Dim_size_not_positive token)
         else dim_sizes_loop tokens (dim_sizes @ [dim_size]))"

text \<open>
  \<^verbatim>\<open>UniTorus::_ComputeSize\<close>. Here the tokens are the raw pieces between the commas:
  nothing is trimmed or skipped, and there is always at least one. \<^verbatim>\<open>_size\<close> is
  multiplied up in \<^verbatim>\<open>int\<close>, one dimension at a time; \<^verbatim>\<open>_channels\<close> is the
  product \<^verbatim>\<open>_dim_sizes.size() * _size\<close>, formed in \<^verbatim>\<open>size_t\<close> and converted to
  \<^verbatim>\<open>int\<close>, which keeps its low 32 bits.
\<close>

definition UniTorus_ComputeSize ::
  "configuration \<Rightarrow> globals \<Rightarrow> error + (unitorus \<times> globals)" where
  "UniTorus_ComputeSize config g =
     (let dim_sizes_str = GetStr config ''dim_sizes''
      in if dim_sizes_str = [] \<or> dim_sizes_str = ''0'' then Inl Dim_sizes_unspecified
         else
           (case dim_sizes_loop (split_commas (strip_braces dim_sizes_str)) [] of
              Inl e \<Rightarrow> Inl e
            | Inr dim_sizes \<Rightarrow>
                let size = fold (\<lambda>dim_size sz. int32_wrap (sz * dim_size)) dim_sizes 1
                in Inr (\<lparr> m_size = size, m_nodes = size,
                          m_channels = int32_wrap (int (length dim_sizes) * size),
                          m_routers = (\<lambda>_. None),
                          m_dim_sizes = dim_sizes,
                          m_dim_bandwidth = [], m_dim_latency = [], m_dim_penalty = [] \<rparr>,
                        g\<lparr> gN := int (length dim_sizes), gK := dim_sizes ! 0,
                           gDimSizes := dim_sizes \<rparr>)))"

subsection \<open>Per-dimension attributes\<close>

fun positive_values_loop :: "string \<Rightarrow> string list \<Rightarrow> int list \<Rightarrow> error + int list" where
  "positive_values_loop param_name [] vals = Inr vals"
| "positive_values_loop param_name (token # tokens) vals =
     (let v = atoi token
      in if v \<le> 0 then Inl (Value_not_positive param_name token)
         else positive_values_loop param_name tokens (vals @ [v]))"

fun nonnegative_values_loop :: "string \<Rightarrow> string list \<Rightarrow> int list \<Rightarrow> error + int list" where
  "nonnegative_values_loop param_name [] vals = Inr vals"
| "nonnegative_values_loop param_name (token # tokens) vals =
     (let v = atoi token
      in if v < 0 then Inl (Value_negative param_name token)
         else nonnegative_values_loop param_name tokens (vals @ [v]))"

text \<open>The two lambdas of \<^verbatim>\<open>UniTorus::_ParseDirectionConfig\<close>.\<close>

definition parseAndValidate :: "nat \<Rightarrow> string \<Rightarrow> string \<Rightarrow> error + int list" where
  "parseAndValidate num_dims param_str param_name =
     (if param_str = [] \<or> param_str = ''0'' then Inr []
      else
        let tokens = trimmed_tokens param_str
        in if length tokens \<noteq> num_dims
           then Inl (Count_mismatch param_name (length tokens) num_dims)
           else positive_values_loop param_name tokens [])"

definition parseAndValidatePenalty :: "nat \<Rightarrow> string \<Rightarrow> string \<Rightarrow> error + int list" where
  "parseAndValidatePenalty num_dims param_str param_name =
     (if param_str = [] \<or> param_str = ''0'' then Inr []
      else
        let tokens = trimmed_tokens param_str
        in if length tokens \<noteq> num_dims
           then Inl (Count_mismatch param_name (length tokens) num_dims)
           else nonnegative_values_loop param_name tokens [])"

text \<open>\<^verbatim>\<open>std::vector::resize(n, v)\<close>: cut to \<open>n\<close> elements or padded with \<open>v\<close>.\<close>

definition resize :: "'a list \<Rightarrow> nat \<Rightarrow> 'a \<Rightarrow> 'a list" where
  "resize xs n v = take n xs @ replicate (n - length xs) v"

definition UniTorus_ParseDirectionConfig :: "configuration \<Rightarrow> unitorus \<Rightarrow> error + unitorus" where
  "UniTorus_ParseDirectionConfig config u =
     (let num_dims = length (m_dim_sizes u);
          u1 = u\<lparr> m_dim_bandwidth := resize (m_dim_bandwidth u) num_dims 1,
                  m_dim_latency := resize (m_dim_latency u) num_dims 1,
                  m_dim_penalty := resize (m_dim_penalty u) num_dims 0 \<rparr>
      in case parseAndValidate num_dims (GetStr config ''dim_bandwidth'') ''dim_bandwidth'' of
           Inl e \<Rightarrow> Inl e
         | Inr bandwidth_values \<Rightarrow>
             let u2 = (if bandwidth_values \<noteq> [] then u1\<lparr> m_dim_bandwidth := bandwidth_values \<rparr>
                       else u1)
             in case parseAndValidate num_dims (GetStr config ''dim_latency'') ''dim_latency'' of
                  Inl e \<Rightarrow> Inl e
                | Inr latency_values \<Rightarrow>
                    let u3 = (if latency_values \<noteq> [] then u2\<lparr> m_dim_latency := latency_values \<rparr>
                              else u2)
                    in case parseAndValidatePenalty num_dims (GetStr config ''dim_penalty'')
                              ''dim_penalty'' of
                         Inl e \<Rightarrow> Inl e
                       | Inr penalty_values \<Rightarrow>
                           Inr (if penalty_values \<noteq> []
                                then u3\<lparr> m_dim_penalty := penalty_values \<rparr> else u3))"

text \<open>
  The constructor, up to the fields the properties below read: \<^verbatim>\<open>_Alloc\<close> and
  \<^verbatim>\<open>_BuildNet\<close> create channels and routers and leave the sizes and the
  per-dimension attributes as they are. With a \<^verbatim>\<open>_size\<close> of 0 they allocate nothing
  and their loops over the nodes do not run.
\<close>

definition UniTorus :: "configuration \<Rightarrow> globals \<Rightarrow> error + (unitorus \<times> globals)" where
  "UniTorus config g =
     (case UniTorus_ComputeSize config g of
        Inl e \<Rightarrow> Inl e
      | Inr (u1, g1) \<Rightarrow>
          (case UniTorus_ParseDirectionConfig config u1 of
             Inl e \<Rightarrow> Inl e
           | Inr u2 \<Rightarrow> Inr (u2, g1)))"

definition UniTorus_RegisterRoutingFunctions :: "globals \<Rightarrow> globals" where
  "UniTorus_RegisterRoutingFunctions g =
     g\<lparr> gRoutingFunctionMap :=
          (gRoutingFunctionMap g)(''dim_order_unitorus_unitorus'' \<mapsto> dim_order_unitorus) \<rparr>"

subsection \<open>Coordinates\<close>

text \<open>The loop of \<^verbatim>\<open>_NodeToCoords\<close>, by recursion over the dimension sizes.\<close>

fun NodeToCoords_loop :: "int list \<Rightarrow> int \<Rightarrow> int list" where
  "NodeToCoords_loop [] temp = []"
| "NodeToCoords_loop (s # ss) temp = (temp smod s) # NodeToCoords_loop ss (temp sdiv s)"

definition UniTorus_NodeToCoords :: "unitorus \<Rightarrow> int \<Rightarrow> int list" where
  "UniTorus_NodeToCoords u node = NodeToCoords_loop (m_dim_sizes u) node"

text \<open>
  The loop of \<^verbatim>\<open>_CoordsToNode\<close>; a coordinate vector shorter than the dimension list
  is read out of bounds, which is \<open>None\<close>. \<^verbatim>\<open>node\<close> and \<^verbatim>\<open>multiplier\<close> are
  \<^verbatim>\<open>int\<close>s: the product \<^verbatim>\<open>coords[dim] * multiplier\<close>, the sum and the new
  multiplier each wrap.
\<close>

fun CoordsToNode_loop :: "int list \<Rightarrow> int list \<Rightarrow> int \<Rightarrow> int \<Rightarrow> int option" where
  "CoordsToNode_loop [] coords node multiplier = Some node"
| "CoordsToNode_loop (s # ss) [] node multiplier = None"
| "CoordsToNode_loop (s # ss) (c # cs) node multiplier =
     CoordsToNode_loop ss cs (int32_wrap (node + int32_wrap (c * multiplier)))
       (int32_wrap (multiplier * s))"

definition UniTorus_CoordsToNode :: "unitorus \<Rightarrow> int list \<Rightarrow> int option" where
  "UniTorus_CoordsToNode u coords = CoordsToNode_loop (m_dim_sizes u) coords 0 1"

text \<open>A coordinate tuple is valid if it has one entry per dimension, each within its extent.\<close>

definition valid_coords :: "unitorus \<Rightarrow> int list \<Rightarrow> bool" where
  "valid_coords u coords \<longleftrightarrow> list_all2 (\<lambda>ci s. 0 \<le> ci \<and> ci < s) coords (m_dim_sizes u)"

subsection \<open>Capacity\<close>

text \<open>
  \<^verbatim>\<open>UniTorus::Capacity\<close>. The product \<^verbatim>\<open>_size * _dim_bandwidth[dim]\<close> is computed in
  \<^verbatim>\<open>int\<close> before the conversion to \<^verbatim>\<open>double\<close>. A \<^verbatim>\<open>double\<close> holds every 32-bit
  integer exactly; the quotients and sums in the statements below are integers of that
  size as well, so the \<^verbatim>\<open>double\<close> arithmetic is modelled by the reals. (With a
  \<^verbatim>\<open>_size\<close> of 0 the quotient of the code is not a number; the statements below are
  about networks of positive size.)
\<close>

definition UniTorus_Capacity :: "unitorus \<Rightarrow> real" where
  "UniTorus_Capacity u =
     fold (\<lambda>d total_capacity.
             total_capacity
             + real_of_int (int32_wrap (m_size u * (m_dim_bandwidth u ! d)))
               / real_of_int (m_size u))
       [0..<length (m_dim_sizes u)] 0"


section \<open>Example configurations\<close>

text \<open>Globals in which no builder has run and nothing is registered.\<close>

definition initial_globals :: globals where
  "initial_globals = \<lparr> gK = 0, gN = 0, gDimSizes = [], gRoutingFunctionMap = Map.empty \<rparr>"

definition config_unitorus_4x4x4 :: configuration where
  "config_unitorus_4x4x4 = [''dim_sizes'' \<mapsto> ''{4,4,4}'']"

definition config_unitorus_zero_strings :: configuration where
  "config_unitorus_zero_strings =
     [''dim_sizes'' \<mapsto> ''{3,3}'', ''dim_bandwidth'' \<mapsto> ''0'', ''dim_latency'' \<mapsto> ''0'',
      ''dim_penalty'' \<mapsto> ''0'']"

definition config_unitorus_65536 :: configuration where
  "config_unitorus_65536 = [''dim_sizes'' \<mapsto> ''{65536,65536}'']"

definition config_unitorus_wide :: configuration where
  "config_unitorus_wide = [''dim_sizes'' \<mapsto> ''{4,4}'', ''dim_bandwidth'' \<mapsto> ''{134217728,1}'']"

definition config_cake_3x3x2 :: configuration where
  "config_cake_3x3x2 = [''dim_sizes'' \<mapsto> ''{3,3,2}'', ''elevator_coords'' \<mapsto> ''{{1,1}}'']"

definition config_cake_two_elevators :: configuration where
  "config_cake_two_elevators =
     [''dim_sizes'' \<mapsto> ''{3,3,2}'', ''elevator_coords'' \<mapsto> ''{{1,1},{2,2}}'']"

definition config_cake_four_sizes :: configuration where
  "config_cake_four_sizes = [''dim_sizes'' \<mapsto> ''{2,2,2,5}'']"

definition config_cake_one_size :: configuration where
  "config_cake_one_size = [''dim_sizes'' \<mapsto> ''{4}'']"

definition config_cake_mapping :: configuration where
  "config_cake_mapping =
     [''dim_sizes'' \<mapsto> ''{2,2}'', ''elevator_coords'' \<mapsto> ''{{0,0}}'',
      ''elevator_mapping_coords'' \<mapsto> ''{{{1,1},{0,0}},{{0,0},{0,0}}}'']"


section \<open>Auxiliary notions for the proofs\<close>

text \<open>A coordinate pair within the extent of a layer, and a mapping table of such pairs.\<close>

definition in_plane :: "int \<Rightarrow> int \<Rightarrow> int \<times> int \<Rightarrow> bool" where
  "in_plane X Y p \<longleftrightarrow> 0 \<le> fst p \<and> fst p < X \<and> 0 \<le> snd p \<and> snd p < Y"

definition table_in_plane :: "int \<Rightarrow> int \<Rightarrow> (int \<times> int) list list \<Rightarrow> bool" where
  "table_in_plane X Y emap \<longleftrightarrow>
     length emap = nat Y \<and> (\<forall>row\<in>set emap. length row = nat X \<and> (\<forall>p\<in>set row. in_plane X Y p))"

text \<open>What the first two stages of the constructor establish about a Cake.\<close>

definition cake_parsed :: "cake \<Rightarrow> bool" where
  "cake_parsed c \<longleftrightarrow>
     0 < m_x c \<and> 0 < m_y c \<and> 0 < m_layers c
     \<and> m_size c = m_x c * m_y c * m_layers c
     \<and> m_inplane_channels c = m_size c * 2
     \<and> m_vertical_channels c = int (length (m_elevators c)) * m_layers c * 2
     \<and> m_channels c = m_inplane_channels c + m_vertical_channels c
     \<and> m_routers c = (\<lambda>_. None)
     \<and> distinct (m_elevators c)
     \<and> (\<forall>p\<in>set (m_elevators c). in_plane (m_x c) (m_y c) p)
     \<and> dom (m_elevator_index c) = (\<lambda>p. Cake_Key (fst p) (snd p)) ` set (m_elevators c)
     \<and> table_in_plane (m_x c) (m_y c) (m_elevator_map c)"

type_synonym job = "int \<times> int \<times> int \<times> (router \<Rightarrow> int \<Rightarrow> router)"

definition out_step :: "job \<Rightarrow> router \<Rightarrow> router" where
  "out_step j R =
     (case j of (fr, to, ch, setter) \<Rightarrow>
        setter (AddOutputChannel R (chan ch) (chan_cred ch)) (OutputIndexCount R))"

definition in_step :: "job \<Rightarrow> router \<Rightarrow> router" where
  "in_step j R = (case j of (fr, to, ch, setter) \<Rightarrow> AddInputChannel R (chan ch) (chan_cred ch))"

definition wire :: "job \<Rightarrow> (int \<Rightarrow> router option) \<Rightarrow> (int \<Rightarrow> router option)" where
  "wire j rs = upd_router (upd_router rs (fst j) (out_step j)) (fst (snd j)) (in_step j)"

definition local_step :: "int \<Rightarrow> job \<Rightarrow> router \<Rightarrow> router" where
  "local_step r j R =
     (let R1 = (if fst j = r then out_step j R else R)
      in if fst (snd j) = r then in_step j R1 else R1)"

definition xplus_job :: "cake \<Rightarrow> int \<times> int \<times> int \<Rightarrow> job" where
  "xplus_job c t =
     (case t of (z, y, x) \<Rightarrow>
        (Cake_NodeId c x y z, Cake_NodeId c ((x + 1) smod m_x c) y z,
         Cake_InplaneChannel c (Cake_NodeId c x y z) 0, SetCakePortXPlus))"

definition yplus_job :: "cake \<Rightarrow> int \<times> int \<times> int \<Rightarrow> job" where
  "yplus_job c t =
     (case t of (z, y, x) \<Rightarrow>
        (Cake_NodeId c x y z, Cake_NodeId c x ((y + 1) smod m_y c) z,
         Cake_InplaneChannel c (Cake_NodeId c x y z) 1, SetCakePortYPlus))"

definition up_job :: "cake \<Rightarrow> nat \<times> int \<Rightarrow> job" where
  "up_job c s =
     (case s of (ei, z) \<Rightarrow>
        (Cake_NodeId c (fst (m_elevators c ! ei)) (snd (m_elevators c ! ei)) z,
         Cake_NodeId c (fst (m_elevators c ! ei)) (snd (m_elevators c ! ei))
           ((z + 1) smod m_layers c),
         Cake_UpChannel c (int ei) z, SetCakePortZUp))"

definition down_job :: "cake \<Rightarrow> nat \<times> int \<Rightarrow> job" where
  "down_job c s =
     (case s of (ei, z) \<Rightarrow>
        (Cake_NodeId c (fst (m_elevators c ! ei)) (snd (m_elevators c ! ei)) z,
         Cake_NodeId c (fst (m_elevators c ! ei)) (snd (m_elevators c ! ei))
           ((z - 1 + m_layers c) smod m_layers c),
         Cake_DownChannel c (int ei) z, SetCakePortZDown))"

definition layer_cells :: "cake \<Rightarrow> (int \<times> int \<times> int) list" where
  "layer_cells c =
     List.product [0..m_layers c - 1] (List.product [0..m_y c - 1] [0..m_x c - 1])"

definition elevator_stops :: "cake \<Rightarrow> (nat \<times> int) list" where
  "elevator_stops c = List.product [0..<length (m_elevators c)] [0..m_layers c - 1]"

definition wiring_jobs :: "cake \<Rightarrow> job list" where
  "wiring_jobs c =
     map (xplus_job c) (layer_cells c) @ map (yplus_job c) (layer_cells c)
     @ concat (map (\<lambda>s. [up_job c s, down_job c s]) (elevator_stops c))"

definition created_router :: "cake \<Rightarrow> int \<Rightarrow> router" where
  "created_router c ident =
     (case Cake_IdToXYZ c ident of (x, y, z) \<Rightarrow>
        let ports = 2 + (if m_elevator_index c (Cake_Key x y) \<noteq> None then 2 else 0) + 1;
            pref = m_elevator_map c ! nat y ! nat x
        in SetCakeElevatorTarget
             (SetCakeXYZ (SetCakeSizes (NewRouter ident ports ports) (m_x c) (m_y c) (m_layers c))
                x y z)
             (fst pref) (snd pref))"

definition attach_step :: "int \<Rightarrow> router \<Rightarrow> router" where
  "attach_step ident R =
     (let R1 = AddInputChannel R (inject ident) (inject_cred ident)
      in SetCakePortEject (AddOutputChannel R1 (eject ident) (eject_cred ident))
           (OutputIndexCount R1))"

definition strip_inputs :: "router \<Rightarrow> router" where
  "strip_inputs R = R\<lparr> input_channels := [], input_credits := [] \<rparr>"

definition is_port_setter :: "(router \<Rightarrow> int \<Rightarrow> router) \<Rightarrow> bool" where
  "is_port_setter s \<longleftrightarrow>
     s = SetCakePortXPlus \<or> s = SetCakePortYPlus \<or> s = SetCakePortZUp \<or> s = SetCakePortZDown"

definition cell_from :: "cake \<Rightarrow> int \<times> int \<times> int \<Rightarrow> int" where
  "cell_from c t = (case t of (z, y, x) \<Rightarrow> Cake_NodeId c x y z)"

definition stop_from :: "cake \<Rightarrow> nat \<times> int \<Rightarrow> int" where
  "stop_from c s =
     (case s of (ei, z) \<Rightarrow>
        Cake_NodeId c (fst (m_elevators c ! ei)) (snd (m_elevators c ! ei)) z)"

definition router_ports :: "router \<Rightarrow> int \<times> int \<times> int \<times> int \<times> int" where
  "router_ports R =
     (cake_port_xp R, cake_port_yp R, cake_port_zup R, cake_port_zdn R, cake_port_eject R)"

definition sinks :: "cake \<Rightarrow> FlitChannel \<Rightarrow> int list" where
  "sinks c ch =
     filter (\<lambda>r. case m_routers c r of None \<Rightarrow> False | Some R \<Rightarrow> ch \<in> set (input_channels R))
       [0..m_size c - 1]"

definition job_to :: "job \<Rightarrow> int" where
  "job_to j = fst (snd j)"

definition job_chan :: "job \<Rightarrow> int" where
  "job_chan j = fst (snd (snd j))"

text \<open>
  The loop of \<^verbatim>\<open>_CoordsToNode\<close> in the integers, without the wrap-around: what the
  loop computes as long as nothing leaves the range of an \<^verbatim>\<open>int\<close>.
\<close>

fun CoordsToNode_exact :: "int list \<Rightarrow> int list \<Rightarrow> int \<Rightarrow> int \<Rightarrow> int option" where
  "CoordsToNode_exact [] coords node multiplier = Some node"
| "CoordsToNode_exact (s # ss) [] node multiplier = None"
| "CoordsToNode_exact (s # ss) (c # cs) node multiplier =
     CoordsToNode_exact ss cs (node + c * multiplier) (multiplier * s)"

section \<open>Arithmetic and list facts\<close>

lemma sdiv_nonneg: "0 \<le> a \<Longrightarrow> 0 < b \<Longrightarrow> a sdiv b = a div (b::int)"
  by (cases "a = 0") (simp_all add: signed_divide_int_def)

lemma smod_nonneg: "0 \<le> a \<Longrightarrow> 0 < b \<Longrightarrow> a smod b = a mod (b::int)"
  by (simp add: smod_mod_positive)

lemma div_lt_bound:
  assumes "0 < s" and "n < s * P"
  shows "n div s < (P::int)"
proof (rule ccontr)
  assume "\<not> n div s < P"
  then have "P \<le> n div s" by simp
  then have "s * P \<le> s * (n div s)" using assms(1) by (simp add: mult_left_mono)
  moreover have "s * (n div s) + n mod s = n" by (rule mult_div_mod_eq)
  moreover have "0 \<le> n mod s" using assms(1) by simp
  ultimately show False using assms(2) by linarith
qed

lemma prod_list_pos: "\<forall>s\<in>set ss. 0 < s \<Longrightarrow> 0 < prod_list (ss :: int list)"
  by (induction ss) simp_all

lemma int32_wrap_id: "- (2 ^ 31) \<le> v \<Longrightarrow> v < 2 ^ 31 \<Longrightarrow> int32_wrap v = v"
  by (simp add: int32_wrap_def mod_pos_pos_trivial)

lemma int32_wrap_nonneg: "0 \<le> v \<Longrightarrow> v < 2 ^ 31 \<Longrightarrow> int32_wrap v = v"
  by (rule int32_wrap_id) simp_all

lemma le_mult_prod_list:
  assumes "\<forall>s\<in>set ss. 0 < s" and "0 \<le> a"
  shows "a \<le> a * prod_list (ss :: int list)"
proof -
  from prod_list_pos[OF assms(1)] have "1 \<le> prod_list ss" by simp
  with assms(2) have "a * 1 \<le> a * prod_list ss" by (intro mult_left_mono)
  then show ?thesis by simp
qed

section \<open>Evaluating the string functions\<close>

lemmas string_eval =
  GetStr_def strip_braces_def split_commas_def trimmed_tokens_def trim_def is_blank_def
  atoi_def isspace_def isdigit_def digit_val_def digits_value_def stream_tokens_def
  braces_to_spaces_def brackets_to_spaces_def mapping_nums_def mapping_token_nums_def

section \<open>UniTorus: what construction establishes\<close>

lemma split_loop_not_Nil: "split_loop cur s \<noteq> []"
  by (induction s arbitrary: cur) simp_all

lemma dim_sizes_loop_Inr:
  "dim_sizes_loop toks acc = Inr ds \<Longrightarrow> \<forall>s\<in>set acc. 0 < s \<Longrightarrow>
     (\<forall>s\<in>set ds. 0 < s) \<and> length ds = length acc + length toks"
proof (induction toks arbitrary: acc)
  case Nil
  then show ?case by simp
next
  case (Cons t toks)
  from Cons.prems(1) have pos: "0 < atoi t"
    and rest: "dim_sizes_loop toks (acc @ [atoi t]) = Inr ds"
    by (auto simp: Let_def split: if_splits)
  from Cons.IH[OF rest] pos Cons.prems(2) show ?case by simp
qed

lemma fold_mult_prod_list:
  "\<forall>s\<in>set ds. 0 < s \<Longrightarrow> 0 < a \<Longrightarrow> a * prod_list ds < 2 ^ 31 \<Longrightarrow>
     fold (\<lambda>dim_size sz. int32_wrap (sz * dim_size)) ds a = a * prod_list ds"
proof (induction ds arbitrary: a)
  case Nil
  then show ?case by simp
next
  case (Cons d ds)
  have d: "0 < d" and ds: "\<forall>s\<in>set ds. 0 < s" using Cons.prems(1) by simp_all
  have ad: "0 < a * d" using d Cons.prems(2) by simp
  have total: "a * d * prod_list ds < 2 ^ 31" using Cons.prems(3) by (simp add: mult.assoc)
  from le_mult_prod_list[OF ds, of "a * d"] ad total have "a * d < 2 ^ 31" by simp
  with ad have w: "int32_wrap (a * d) = a * d" by (intro int32_wrap_nonneg) simp_all
  from Cons.IH[OF ds ad total] w show ?case by (simp add: mult.assoc)
qed

lemma UniTorus_ComputeSize_Inr:
  assumes "UniTorus_ComputeSize config g = Inr (u, g')"
  shows "(\<forall>s\<in>set (m_dim_sizes u). 0 < s) \<and> m_dim_sizes u \<noteq> []
       \<and> m_size u = fold (\<lambda>dim_size sz. int32_wrap (sz * dim_size)) (m_dim_sizes u) 1
       \<and> m_dim_bandwidth u = [] \<and> m_dim_latency u = [] \<and> m_dim_penalty u = []
       \<and> g' = g\<lparr> gN := int (length (m_dim_sizes u)), gK := m_dim_sizes u ! 0,
                  gDimSizes := m_dim_sizes u \<rparr>"
proof -
  let ?toks = "split_commas (strip_braces (GetStr config ''dim_sizes''))"
  from assms obtain ds where ds: "dim_sizes_loop ?toks [] = Inr ds"
    and u: "u = \<lparr> m_size = fold (\<lambda>dim_size sz. int32_wrap (sz * dim_size)) ds 1,
                  m_nodes = fold (\<lambda>dim_size sz. int32_wrap (sz * dim_size)) ds 1,
                  m_channels = int32_wrap (int (length ds)
                                 * fold (\<lambda>dim_size sz. int32_wrap (sz * dim_size)) ds 1),
                  m_routers = (\<lambda>_. None), m_dim_sizes = ds,
                  m_dim_bandwidth = [], m_dim_latency = [], m_dim_penalty = [] \<rparr>"
    and g': "g' = g\<lparr> gN := int (length ds), gK := ds ! 0, gDimSizes := ds \<rparr>"
    by (auto simp: UniTorus_ComputeSize_def Let_def split: if_splits sum.splits)
  from dim_sizes_loop_Inr[OF ds] have pos: "\<forall>s\<in>set ds. 0 < s"
    and len: "length ds = length ?toks" by simp_all
  have "?toks \<noteq> []" by (simp add: split_commas_def split_loop_not_Nil)
  with len have "ds \<noteq> []" by auto
  with pos u g' show ?thesis by simp
qed

lemma UniTorus_ParseDirectionConfig_sizes:
  "UniTorus_ParseDirectionConfig config u = Inr u' \<Longrightarrow>
     m_dim_sizes u' = m_dim_sizes u \<and> m_size u' = m_size u"
  by (auto simp: UniTorus_ParseDirectionConfig_def Let_def split: sum.splits if_splits)

lemma UniTorus_Inr_sizes:
  assumes "UniTorus config g = Inr (u, g')"
  shows "(\<forall>s\<in>set (m_dim_sizes u). 0 < s) \<and> m_dim_sizes u \<noteq> []
       \<and> m_size u = fold (\<lambda>dim_size sz. int32_wrap (sz * dim_size)) (m_dim_sizes u) 1"
proof -
  from assms obtain u1 where c: "UniTorus_ComputeSize config g = Inr (u1, g')"
    and p: "UniTorus_ParseDirectionConfig config u1 = Inr u"
    by (auto simp: UniTorus_def split: sum.splits)
  from UniTorus_ComputeSize_Inr[OF c] UniTorus_ParseDirectionConfig_sizes[OF p]
  show ?thesis by simp
qed

text \<open>
  As long as the product of the dimension sizes fits an \<^verbatim>\<open>int\<close>, \<^verbatim>\<open>_size\<close> is that
  product.
\<close>

lemma UniTorus_size_in_range:
  assumes "UniTorus config g = Inr (u, g')" and "prod_list (m_dim_sizes u) < 2 ^ 31"
  shows "m_size u = prod_list (m_dim_sizes u)"
  using UniTorus_Inr_sizes[OF assms(1)] fold_mult_prod_list[of "m_dim_sizes u" 1] assms(2)
  by simp

section \<open>UniTorus: node ids and coordinates\<close>

text \<open>
  On valid coordinates, and as long as the product of the sizes fits an \<^verbatim>\<open>int\<close>, no
  step of the loop of \<^verbatim>\<open>_CoordsToNode\<close> wraps: the node stays below the multiplier,
  and the multiplier below the product.
\<close>

lemma CoordsToNode_loop_exact:
  "\<forall>s\<in>set ss. 0 < s \<Longrightarrow> list_all2 (\<lambda>ci s. 0 \<le> ci \<and> ci < s) cs ss \<Longrightarrow>
   0 \<le> node \<Longrightarrow> node < m \<Longrightarrow> m * prod_list ss < 2 ^ 31 \<Longrightarrow>
     CoordsToNode_loop ss cs node m = CoordsToNode_exact ss cs node m"
proof (induction ss arbitrary: cs node m)
  case Nil
  then show ?case by simp
next
  case (Cons s ss)
  from Cons.prems(2) obtain c cs' where cs: "cs = c # cs'" and c: "0 \<le> c" "c < s"
    and cs': "list_all2 (\<lambda>ci s. 0 \<le> ci \<and> ci < s) cs' ss"
    by (auto simp: list_all2_Cons2)
  have s: "0 < s" and ss: "\<forall>s\<in>set ss. 0 < s" using Cons.prems(1) by simp_all
  have m: "0 < m" using Cons.prems(3,4) by simp
  have ms: "0 < m * s" using m s by simp
  have total: "m * s * prod_list ss < 2 ^ 31" using Cons.prems(5) by (simp add: mult.assoc)
  from le_mult_prod_list[OF ss, of "m * s"] ms total have ms_fits: "m * s < 2 ^ 31" by simp
  have cm0: "0 \<le> c * m" using c(1) m by simp
  have "c + 1 \<le> s" using c(2) by simp
  then have "(c + 1) * m \<le> s * m" using m by (intro mult_right_mono) simp_all
  then have step: "c * m + m \<le> m * s" by (simp add: algebra_simps)
  have cm_fits: "c * m < 2 ^ 31" using step m ms_fits by simp
  have n0: "0 \<le> node + c * m" using Cons.prems(3) cm0 by simp
  have n1: "node + c * m < m * s" using step Cons.prems(4) by simp
  have w1: "int32_wrap (c * m) = c * m" using cm0 cm_fits by (rule int32_wrap_nonneg)
  have w2: "int32_wrap (node + c * m) = node + c * m"
    using n0 n1 ms_fits by (intro int32_wrap_nonneg) simp_all
  have w3: "int32_wrap (m * s) = m * s" using ms ms_fits by (intro int32_wrap_nonneg) simp_all
  from Cons.IH[OF ss cs' n0 n1 total] show ?case by (simp add: cs w1 w2 w3)
qed

lemma CoordsToNode_exact_acc:
  "CoordsToNode_exact ss cs node m =
     map_option (\<lambda>v. node + m * v) (CoordsToNode_exact ss cs 0 1)"
proof (induction ss arbitrary: cs node m)
  case Nil
  then show ?case by simp
next
  case (Cons s ss)
  show ?case
  proof (cases cs)
    case Nil
    then show ?thesis by simp
  next
    case (Cons c cs')
    have a: "CoordsToNode_exact ss cs' (node + c * m) (m * s) =
        map_option (\<lambda>v. (node + c * m) + (m * s) * v) (CoordsToNode_exact ss cs' 0 1)"
      by (rule Cons.IH)
    have b: "CoordsToNode_exact ss cs' c s =
        map_option (\<lambda>v. c + s * v) (CoordsToNode_exact ss cs' 0 1)"
      by (rule Cons.IH)
    show ?thesis using a b Cons by (simp add: option.map_comp comp_def algebra_simps)
  qed
qed

lemma coords_of_node_valid:
  "\<forall>s\<in>set ss. 0 < s \<Longrightarrow> 0 \<le> n \<Longrightarrow>
     list_all2 (\<lambda>ci s. 0 \<le> ci \<and> ci < s) (NodeToCoords_loop ss n) ss"
proof (induction ss arbitrary: n)
  case Nil
  then show ?case by simp
next
  case (Cons s ss)
  have s: "0 < s" using Cons.prems by simp
  have q0: "0 \<le> n div s" using Cons.prems s by (simp add: pos_imp_zdiv_nonneg_iff)
  show ?case using Cons.IH[OF _ q0] Cons.prems s
    by (simp add: sdiv_nonneg smod_nonneg)
qed

lemma node_of_coords_of_node:
  "\<forall>s\<in>set ss. 0 < s \<Longrightarrow> 0 \<le> n \<Longrightarrow> n < prod_list ss \<Longrightarrow>
     CoordsToNode_exact ss (NodeToCoords_loop ss n) 0 1 = Some n"
proof (induction ss arbitrary: n)
  case Nil
  then show ?case by simp
next
  case (Cons s ss)
  have s: "0 < s" using Cons.prems by simp
  have q0: "0 \<le> n div s" using Cons.prems s by (simp add: pos_imp_zdiv_nonneg_iff)
  have "n < s * prod_list ss" using Cons.prems by simp
  then have q1: "n div s < prod_list ss"
    by (rule div_lt_bound[OF s])
  have ih: "CoordsToNode_exact ss (NodeToCoords_loop ss (n div s)) 0 1 = Some (n div s)"
    using Cons.IH[OF _ q0 q1] Cons.prems by simp
  show ?case
    using Cons.prems s ih
    by (simp add: sdiv_nonneg smod_nonneg CoordsToNode_exact_acc[of ss _ "n mod s" s])
qed

lemma coords_of_node_of_coords:
  "\<forall>s\<in>set ss. 0 < s \<Longrightarrow> list_all2 (\<lambda>ci s. 0 \<le> ci \<and> ci < s) c ss \<Longrightarrow>
     \<exists>m. CoordsToNode_exact ss c 0 1 = Some m \<and> 0 \<le> m \<and> m < prod_list ss
         \<and> NodeToCoords_loop ss m = c"
proof (induction ss arbitrary: c)
  case Nil
  then show ?case by simp
next
  case (Cons s ss)
  from Cons.prems obtain c0 cs where c: "c = c0 # cs" and c0: "0 \<le> c0" "c0 < s"
    and cs: "list_all2 (\<lambda>ci s. 0 \<le> ci \<and> ci < s) cs ss"
    by (auto simp: list_all2_Cons2)
  have s: "0 < s" using Cons.prems by simp
  from Cons.IH[OF _ cs] Cons.prems obtain m where
    m: "CoordsToNode_exact ss cs 0 1 = Some m" "0 \<le> m" "m < prod_list ss"
       "NodeToCoords_loop ss m = cs"
    by auto
  let ?n = "c0 + s * m"
  have n0: "0 \<le> ?n" using c0 m s by simp
  have "m + 1 \<le> prod_list ss" using m by simp
  then have "s * (m + 1) \<le> s * prod_list ss" using s by (simp add: mult_left_mono)
  then have n1: "?n < s * prod_list ss" using c0 by (simp add: algebra_simps)
  have d: "?n div s = m" using c0 s by (simp add: div_pos_pos_trivial)
  have r: "?n mod s = c0" using c0 s by (simp add: mod_pos_pos_trivial)
  show ?case
    using m n0 n1 d r s c
    by (simp add: CoordsToNode_exact_acc[of ss cs c0 s] sdiv_nonneg smod_nonneg)
qed

lemma coords_mixed_radix:
  "\<forall>s\<in>set ss. 0 < s \<Longrightarrow> 0 \<le> n \<Longrightarrow> d < length ss \<Longrightarrow>
     NodeToCoords_loop ss n ! d = (n div prod_list (take d ss)) mod (ss ! d)"
proof (induction ss arbitrary: n d)
  case Nil
  then show ?case by simp
next
  case (Cons s ss)
  have s: "0 < s" using Cons.prems by simp
  have q0: "0 \<le> n div s" using Cons.prems s by (simp add: pos_imp_zdiv_nonneg_iff)
  show ?case
  proof (cases d)
    case 0
    then show ?thesis using Cons.prems s by (simp add: smod_nonneg)
  next
    case (Suc d')
    then have "d' < length ss" using Cons.prems by simp
    from Cons.IH[OF _ q0 this] Cons.prems
    have "NodeToCoords_loop ss (n div s) ! d' =
            (n div s div prod_list (take d' ss)) mod (ss ! d')" by simp
    moreover have "0 \<le> prod_list (take d' ss)"
      using prod_list_pos[of "take d' ss"] Cons.prems
      by (auto dest: in_set_takeD intro: less_imp_le)
    ultimately show ?thesis using Suc Cons.prems s
      by (simp add: sdiv_nonneg zdiv_zmult2_eq)
  qed
qed

text \<open>
  On a constructed UniTorus whose product of dimension sizes fits an \<^verbatim>\<open>int\<close>, the
  node ids below \<open>_size\<close>, which is that product, and the valid coordinate tuples are
  in bijection: every such id is mapped to a valid tuple and back to itself, every
  valid tuple is mapped to an id below \<open>_size\<close> and back to itself, and coordinate \<open>d\<close>
  of id \<open>n\<close> is \<open>(n div (sizes[0] * ... * sizes[d-1])) mod sizes[d]\<close>, least
  significant dimension first.
\<close>

lemma UniTorus_coords_bijection_in_range:
  assumes built: "UniTorus config g = Inr (u, g')"
    and fits: "prod_list (m_dim_sizes u) < 2 ^ 31"
  shows "m_size u = prod_list (m_dim_sizes u)
       \<and> (\<forall>n. 0 \<le> n \<and> n < m_size u \<longrightarrow>
            valid_coords u (UniTorus_NodeToCoords u n) \<and>
            UniTorus_CoordsToNode u (UniTorus_NodeToCoords u n) = Some n)
       \<and> (\<forall>c. valid_coords u c \<longrightarrow>
            (\<exists>m. UniTorus_CoordsToNode u c = Some m \<and> 0 \<le> m \<and> m < m_size u
                 \<and> UniTorus_NodeToCoords u m = c))
       \<and> (\<forall>n d. 0 \<le> n \<and> n < m_size u \<and> d < length (m_dim_sizes u) \<longrightarrow>
            UniTorus_NodeToCoords u n ! d =
              (n div prod_list (take d (m_dim_sizes u))) mod (m_dim_sizes u ! d))"
proof -
  from UniTorus_Inr_sizes[OF built] have pos: "\<forall>s\<in>set (m_dim_sizes u). 0 < s" by simp
  from UniTorus_size_in_range[OF built fits] have size: "m_size u = prod_list (m_dim_sizes u)" .
  have exact: "UniTorus_CoordsToNode u c = CoordsToNode_exact (m_dim_sizes u) c 0 1"
    if "valid_coords u c" for c
    using CoordsToNode_loop_exact[OF pos that[unfolded valid_coords_def], of 0 1] fits
    by (simp add: UniTorus_CoordsToNode_def)
  have there: "valid_coords u (UniTorus_NodeToCoords u n)
      \<and> UniTorus_CoordsToNode u (UniTorus_NodeToCoords u n) = Some n"
    if n: "0 \<le> n" "n < m_size u" for n
  proof -
    from coords_of_node_valid[OF pos n(1)]
    have v: "valid_coords u (UniTorus_NodeToCoords u n)"
      by (simp add: valid_coords_def UniTorus_NodeToCoords_def)
    from node_of_coords_of_node[OF pos n(1)] n(2) size
    have "CoordsToNode_exact (m_dim_sizes u) (UniTorus_NodeToCoords u n) 0 1 = Some n"
      by (simp add: UniTorus_NodeToCoords_def)
    with v exact[OF v] show ?thesis by simp
  qed
  have inverse: "\<exists>m. UniTorus_CoordsToNode u c = Some m \<and> 0 \<le> m \<and> m < m_size u
                 \<and> UniTorus_NodeToCoords u m = c"
    if v: "valid_coords u c" for c
    using coords_of_node_of_coords[OF pos v[unfolded valid_coords_def]] exact[OF v] size
    by (simp add: UniTorus_NodeToCoords_def)
  have radix: "UniTorus_NodeToCoords u n ! d =
              (n div prod_list (take d (m_dim_sizes u))) mod (m_dim_sizes u ! d)"
    if "0 \<le> n" "d < length (m_dim_sizes u)" for n d
    using coords_mixed_radix[OF pos that] by (simp add: UniTorus_NodeToCoords_def)
  from size there inverse radix show ?thesis by blast
qed

lemma UniTorus_coords_bijection_4x4x4:
  "\<exists>u g'. UniTorus [''dim_sizes'' \<mapsto> ''{4,4,4}'']
            \<lparr> gK = 0, gN = 0, gDimSizes = [], gRoutingFunctionMap = Map.empty \<rparr> = Inr (u, g')
     \<and> prod_list (m_dim_sizes u) < 2 ^ 31
     \<and> m_size u = 64 \<and> (0::int) \<le> 5 \<and> 5 < m_size u
     \<and> UniTorus_NodeToCoords u 5 = [1, 1, 0]
     \<and> UniTorus_CoordsToNode u (UniTorus_NodeToCoords u 5) = Some 5
     \<and> valid_coords u [1, 2, 0]
     \<and> UniTorus_CoordsToNode u [1, 2, 0] = Some 9
     \<and> UniTorus_NodeToCoords u 9 = [1, 2, 0]
     \<and> (1::nat) < length (m_dim_sizes u)
     \<and> UniTorus_NodeToCoords u 9 ! 1 = (9 div prod_list (take 1 (m_dim_sizes u))) mod (m_dim_sizes u ! 1)"
proof -
  let ?u = "\<lparr> m_size = 64, m_nodes = 64, m_channels = 192, m_routers = (\<lambda>_. None),
              m_dim_sizes = [4, 4, 4], m_dim_bandwidth = [1, 1, 1], m_dim_latency = [1, 1, 1],
              m_dim_penalty = [0, 0, 0] \<rparr>"
  let ?g = "\<lparr> gK = 4, gN = 3, gDimSizes = [4, 4, 4], gRoutingFunctionMap = Map.empty \<rparr>"
  have built: "UniTorus [''dim_sizes'' \<mapsto> ''{4,4,4}'']
            \<lparr> gK = 0, gN = 0, gDimSizes = [], gRoutingFunctionMap = Map.empty \<rparr> = Inr (?u, ?g)"
    by (simp add: UniTorus_def UniTorus_ComputeSize_def UniTorus_ParseDirectionConfig_def
        parseAndValidate_def parseAndValidatePenalty_def resize_def string_eval Let_def
        int32_wrap_def)
  have fits: "prod_list (m_dim_sizes ?u) < 2 ^ 31" by simp
  have v: "valid_coords ?u [1, 2, 0]" by (simp add: valid_coords_def)
  from UniTorus_coords_bijection_in_range[OF built fits] v
  have "UniTorus_CoordsToNode ?u (UniTorus_NodeToCoords ?u 5) = Some 5"
    and "\<exists>m. UniTorus_CoordsToNode ?u [1, 2, 0] = Some m \<and> 0 \<le> m \<and> m < m_size ?u
           \<and> UniTorus_NodeToCoords ?u m = [1, 2, 0]"
    and "UniTorus_NodeToCoords ?u 9 ! 1 =
           (9 div prod_list (take 1 (m_dim_sizes ?u))) mod (m_dim_sizes ?u ! 1)"
    by simp_all
  with built v show ?thesis
    by (intro exI[of _ ?u] exI[of _ ?g])
       (simp add: UniTorus_NodeToCoords_def UniTorus_CoordsToNode_def
          signed_divide_int_def signed_modulo_int_def int32_wrap_def)
qed

lemmas example_configs =
  initial_globals_def config_unitorus_4x4x4_def config_unitorus_zero_strings_def
  config_unitorus_65536_def config_cake_two_elevators_def
  config_unitorus_wide_def config_cake_3x3x2_def config_cake_four_sizes_def
  config_cake_one_size_def config_cake_mapping_def

lemmas UniTorus_eval =
  UniTorus_def UniTorus_ComputeSize_def UniTorus_ParseDirectionConfig_def
  parseAndValidate_def parseAndValidatePenalty_def resize_def string_eval Let_def
  int32_wrap_def

lemmas Cake_eval =
  Cake_def Cake_ComputeSize_def Cake_sizes_of_tokens_def Cake_ParseElevators_def
  Cake_parse_elevator_coords_def Cake_parse_elevator_mapping_def mapping_string_def
  identity_mapping_def Cake_Key_def string_eval Let_def upto_rec1



section \<open>Globals and the registry\<close>

lemma Cake_ComputeSize_Inr:
  assumes "Cake_ComputeSize config g = Inr (c, g')"
  shows "0 < m_x c \<and> 0 < m_y c \<and> 0 < m_layers c
       \<and> m_size c = m_x c * m_y c * m_layers c \<and> m_inplane_channels c = m_size c * 2
       \<and> m_routers c = (\<lambda>_. None)
       \<and> g' = g\<lparr> gK := m_x c, gN := 2 \<rparr>"
  using assms
  by (auto simp: Cake_ComputeSize_def Cake_sizes_of_tokens_def Let_def split: if_splits)

lemma Cake_ParseElevators_sizes:
  "Cake_ParseElevators config c = Inr c' \<Longrightarrow>
     m_x c' = m_x c \<and> m_y c' = m_y c \<and> m_layers c' = m_layers c \<and> m_size c' = m_size c
     \<and> m_inplane_channels c' = m_inplane_channels c \<and> m_routers c' = m_routers c
     \<and> m_vertical_channels c' = int (length (m_elevators c')) * m_layers c * 2
     \<and> m_channels c' = m_inplane_channels c + m_vertical_channels c'"
  by (auto simp: Cake_ParseElevators_def Let_def split: sum.splits if_splits prod.splits)

lemma Cake_BuildNet_fields:
  "m_x (Cake_BuildNet c) = m_x c" "m_y (Cake_BuildNet c) = m_y c"
  "m_layers (Cake_BuildNet c) = m_layers c" "m_size (Cake_BuildNet c) = m_size c"
  "m_channels (Cake_BuildNet c) = m_channels c"
  "m_inplane_channels (Cake_BuildNet c) = m_inplane_channels c"
  "m_vertical_channels (Cake_BuildNet c) = m_vertical_channels c"
  "m_elevators (Cake_BuildNet c) = m_elevators c"
  "m_elevator_index (Cake_BuildNet c) = m_elevator_index c"
  "m_elevator_map (Cake_BuildNet c) = m_elevator_map c"
  by (simp_all add: Cake_BuildNet_def Let_def)

lemma Cake_Inr_stages:
  assumes "Cake config g = Inr (c, g')"
  obtains c1 c2 where "Cake_ComputeSize config g = Inr (c1, g')"
    and "Cake_ParseElevators config c1 = Inr c2" and "c = Cake_BuildNet c2"
  using assms by (auto simp: Cake_def split: sum.splits)

text \<open>
  C8 (as amended). The UniTorus builder sets \<open>gN\<close> to the number of dimensions, \<open>gK\<close>
  to the size of the leading dimension and \<open>gDimSizes\<close> to the dimension sizes. The
  Cake builder sets \<open>gK\<close> to \<open>X\<close> and \<open>gN\<close> to 2 whatever the number of layers, and
  leaves \<open>gDimSizes\<close> as it was.
\<close>

theorem builder_globals:
  "(UniTorus config g = Inr (u, g') \<longrightarrow>
      m_dim_sizes u \<noteq> [] \<and> gN g' = int (length (m_dim_sizes u)) \<and> gK g' = m_dim_sizes u ! 0
      \<and> gDimSizes g' = m_dim_sizes u)
   \<and> (Cake config g = Inr (c, g'') \<longrightarrow>
      gK g'' = m_x c \<and> gN g'' = 2 \<and> gDimSizes g'' = gDimSizes g)"
proof -
  have uni: "m_dim_sizes u \<noteq> [] \<and> gN g' = int (length (m_dim_sizes u))
      \<and> gK g' = m_dim_sizes u ! 0 \<and> gDimSizes g' = m_dim_sizes u"
    if a: "UniTorus config g = Inr (u, g')"
  proof -
    from a obtain u1 where c: "UniTorus_ComputeSize config g = Inr (u1, g')"
      and p: "UniTorus_ParseDirectionConfig config u1 = Inr u"
      by (auto simp: UniTorus_def split: sum.splits)
    from UniTorus_ComputeSize_Inr[OF c] UniTorus_ParseDirectionConfig_sizes[OF p]
    show ?thesis by simp
  qed
  have cake: "gK g'' = m_x c \<and> gN g'' = 2 \<and> gDimSizes g'' = gDimSizes g"
    if a: "Cake config g = Inr (c, g'')"
  proof -
    from a obtain c1 c2 where c: "Cake_ComputeSize config g = Inr (c1, g'')"
      and p: "Cake_ParseElevators config c1 = Inr c2" and b: "c = Cake_BuildNet c2"
      by (rule Cake_Inr_stages)
    from Cake_ComputeSize_Inr[OF c] Cake_ParseElevators_sizes[OF p] b
    show ?thesis by (simp add: Cake_BuildNet_fields)
  qed
  from uni cake show ?thesis by blast
qed

lemma UniTorus_4x4x4_built:
  "UniTorus config_unitorus_4x4x4 initial_globals =
     Inr (\<lparr> m_size = 64, m_nodes = 64, m_channels = 192, m_routers = (\<lambda>_. None),
             m_dim_sizes = [4, 4, 4], m_dim_bandwidth = [1, 1, 1], m_dim_latency = [1, 1, 1],
             m_dim_penalty = [0, 0, 0] \<rparr>,
          \<lparr> gK = 4, gN = 3, gDimSizes = [4, 4, 4], gRoutingFunctionMap = Map.empty \<rparr>)"
  by (simp add: example_configs UniTorus_eval)

lemma Cake_3x3x2_built:
  "Cake config_cake_3x3x2 initial_globals =
     Inr (Cake_BuildNet
            \<lparr> m_size = 18, m_nodes = 18, m_channels = 40, m_routers = (\<lambda>_. None),
              m_x = 3, m_y = 3, m_layers = 2, m_elevators = [(1, 1)],
              m_elevator_index = [4294967297 \<mapsto> 0],
              m_elevator_map = [[(0, 0), (1, 0), (2, 0)], [(0, 1), (1, 1), (2, 1)],
                                [(0, 2), (1, 2), (2, 2)]],
              m_inplane_channels = 36, m_vertical_channels = 4 \<rparr>,
          \<lparr> gK = 3, gN = 2, gDimSizes = [], gRoutingFunctionMap = Map.empty \<rparr>)"
  by (simp add: example_configs Cake_eval eval_nat_numeral)

theorem builder_globals_witness:
  "\<not> isl (UniTorus config_unitorus_4x4x4 initial_globals)
   \<and> gN (snd (projr (UniTorus config_unitorus_4x4x4 initial_globals))) = 3
   \<and> gK (snd (projr (UniTorus config_unitorus_4x4x4 initial_globals))) = 4
   \<and> gDimSizes (snd (projr (UniTorus config_unitorus_4x4x4 initial_globals))) = [4, 4, 4]
   \<and> \<not> isl (Cake config_cake_3x3x2 initial_globals)
   \<and> gK (snd (projr (Cake config_cake_3x3x2 initial_globals))) = 3
   \<and> gN (snd (projr (Cake config_cake_3x3x2 initial_globals))) = 2
   \<and> gDimSizes (snd (projr (Cake config_cake_3x3x2 initial_globals))) = gDimSizes initial_globals"
proof -
  let ?U = "UniTorus config_unitorus_4x4x4 initial_globals"
  let ?C = "Cake config_cake_3x3x2 initial_globals"
  have u: "?U = Inr (fst (projr ?U), snd (projr ?U))"
    by (simp add: UniTorus_4x4x4_built)
  have c: "?C = Inr (fst (projr ?C), snd (projr ?C))"
    by (simp add: Cake_3x3x2_built)
  from builder_globals[of config_unitorus_4x4x4 initial_globals "fst (projr ?U)"
      "snd (projr ?U)" "fst (projr ?C)" "snd (projr ?C)"] u
  have 1: "gN (snd (projr ?U)) = int (length (m_dim_sizes (fst (projr ?U))))
      \<and> gK (snd (projr ?U)) = m_dim_sizes (fst (projr ?U)) ! 0
      \<and> gDimSizes (snd (projr ?U)) = m_dim_sizes (fst (projr ?U))"
    by blast
  from builder_globals[of config_cake_3x3x2 initial_globals "fst (projr ?U)"
      "snd (projr ?U)" "fst (projr ?C)" "snd (projr ?C)"] c
  have 2: "gK (snd (projr ?C)) = m_x (fst (projr ?C)) \<and> gN (snd (projr ?C)) = 2
      \<and> gDimSizes (snd (projr ?C)) = gDimSizes initial_globals"
    by blast
  have 3: "m_dim_sizes (fst (projr ?U)) = [4, 4, 4]" "\<not> isl ?U"
    by (simp_all add: UniTorus_4x4x4_built)
  have 4: "m_x (fst (projr ?C)) = 3" "\<not> isl ?C"
    by (simp_all add: Cake_3x3x2_built Cake_BuildNet_fields)
  from 1 2 3 4 show ?thesis by simp
qed

theorem Cake_globals_counterexample:
  "\<not> isl (Cake config_cake_3x3x2 initial_globals)
   \<and> m_x (fst (projr (Cake config_cake_3x3x2 initial_globals))) = 3
   \<and> m_y (fst (projr (Cake config_cake_3x3x2 initial_globals))) = 3
   \<and> m_layers (fst (projr (Cake config_cake_3x3x2 initial_globals))) = 2
   \<and> gN (snd (projr (Cake config_cake_3x3x2 initial_globals))) = 2
   \<and> gDimSizes (snd (projr (Cake config_cake_3x3x2 initial_globals))) = []"
  by (simp add: Cake_3x3x2_built Cake_BuildNet_fields)

text \<open>
  C9 (as amended). \<^verbatim>\<open>UniTorus::RegisterRoutingFunctions\<close> maps the name
  \<open>dim_order_unitorus_unitorus\<close> to its routing function and changes no other entry;
  \<^verbatim>\<open>Cake::RegisterRoutingFunctions\<close> changes nothing, so that \<open>dor_cake\<close> is in the
  registry afterwards exactly if it was there before.
\<close>

theorem registration:
  "gRoutingFunctionMap (UniTorus_RegisterRoutingFunctions g) =
     (gRoutingFunctionMap g)(''dim_order_unitorus_unitorus'' \<mapsto> dim_order_unitorus)
   \<and> Cake_RegisterRoutingFunctions g = g
   \<and> gRoutingFunctionMap (Cake_RegisterRoutingFunctions (UniTorus_RegisterRoutingFunctions g))
       ''dor_cake'' = gRoutingFunctionMap g ''dor_cake''"
  by (simp add: UniTorus_RegisterRoutingFunctions_def Cake_RegisterRoutingFunctions_def)

theorem registration_counterexample:
  "gRoutingFunctionMap
     (Cake_RegisterRoutingFunctions (UniTorus_RegisterRoutingFunctions initial_globals))
     ''dor_cake'' = None"
  by (simp add: UniTorus_RegisterRoutingFunctions_def Cake_RegisterRoutingFunctions_def
      initial_globals_def)

section \<open>Cake: the number of dimension sizes\<close>

lemma trimmed_tokens_Nil: "trimmed_tokens [] = []"
  by (simp add: trimmed_tokens_def strip_braces_def split_commas_def trim_def)

lemma Cake_sizes_of_tokens_take:
  "3 \<le> length toks \<Longrightarrow> Cake_sizes_of_tokens (take 3 toks) g = Cake_sizes_of_tokens toks g"
  by (simp add: Cake_sizes_of_tokens_def)

lemma GetStr_other_key: "k \<noteq> k' \<Longrightarrow> GetStr (config(k := v)) k' = GetStr config k'"
  by (simp add: GetStr_def)

lemma GetStr_dim_sizes_upd:
  "GetStr (config(''dim_sizes'' := v)) ''elevator_coords'' = GetStr config ''elevator_coords''"
  "GetStr (config(''dim_sizes'' := v)) ''elevatorcoords'' = GetStr config ''elevatorcoords''"
  "GetStr (config(''dim_sizes'' := v)) ''elevator_mapping_coords''
     = GetStr config ''elevator_mapping_coords''"
  "GetStr (config(''dim_sizes'' := v)) ''elevatormapping'' = GetStr config ''elevatormapping''"
  by (simp_all add: GetStr_def)

lemma Cake_ParseElevators_dim_sizes:
  "Cake_ParseElevators (config(''dim_sizes'' := v)) c = Cake_ParseElevators config c"
  unfolding Cake_ParseElevators_def Cake_parse_elevator_coords_def
    Cake_parse_elevator_mapping_def mapping_string_def GetStr_dim_sizes_upd
  by (rule refl)

lemma Cake_cong:
  "Cake_ComputeSize config g = Cake_ComputeSize config' g \<Longrightarrow>
   (\<And>c. Cake_ParseElevators config c = Cake_ParseElevators config' c) \<Longrightarrow>
   Cake config g = Cake config' g"
  by (simp add: Cake_def split: sum.splits)

text \<open>
  C7 (as amended). Construction fails for a \<open>dim_sizes\<close> list of fewer than two
  values. A list of more than three values is not rejected: it is treated exactly as
  the list of its first three values.
\<close>

theorem Cake_dim_sizes_count:
  "(length (trimmed_tokens (GetStr config ''dim_sizes'')) < 2 \<longrightarrow> isl (Cake config g))
   \<and> (3 \<le> length (trimmed_tokens s) \<and> trimmed_tokens s' = take 3 (trimmed_tokens s) \<longrightarrow>
        Cake (config(''dim_sizes'' \<mapsto> s)) g = Cake (config(''dim_sizes'' \<mapsto> s')) g)"
proof -
  have few: "isl (Cake config g)"
    if "length (trimmed_tokens (GetStr config ''dim_sizes'')) < 2"
    using that
    by (simp add: Cake_def Cake_ComputeSize_def Cake_sizes_of_tokens_def Let_def)
  have many: "Cake (config(''dim_sizes'' \<mapsto> s)) g = Cake (config(''dim_sizes'' \<mapsto> s')) g"
    if len: "3 \<le> length (trimmed_tokens s)"
      and eq: "trimmed_tokens s' = take 3 (trimmed_tokens s)"
  proof -
    from len have s: "s \<noteq> []" using trimmed_tokens_Nil by auto
    from len eq have "trimmed_tokens s' \<noteq> []" by auto
    then have s': "s' \<noteq> []" using trimmed_tokens_Nil by auto
    have "Cake_ComputeSize (config(''dim_sizes'' \<mapsto> s)) g
            = Cake_ComputeSize (config(''dim_sizes'' \<mapsto> s')) g"
      using s s' eq Cake_sizes_of_tokens_take[OF len, of g]
      by (simp add: Cake_ComputeSize_def GetStr_def)
    then show ?thesis
      by (rule Cake_cong) (simp add: Cake_ParseElevators_dim_sizes)
  qed
  from few many show ?thesis by blast
qed

theorem Cake_dim_sizes_count_witness:
  "length (trimmed_tokens (GetStr config_cake_one_size ''dim_sizes'')) < 2
   \<and> isl (Cake config_cake_one_size initial_globals)
   \<and> 3 \<le> length (trimmed_tokens ''{2,2,2,5}'')
   \<and> trimmed_tokens ''{2,2,2}'' = take 3 (trimmed_tokens ''{2,2,2,5}'')
   \<and> Cake (Map.empty(''dim_sizes'' \<mapsto> ''{2,2,2,5}'')) initial_globals
       = Cake (Map.empty(''dim_sizes'' \<mapsto> ''{2,2,2}'')) initial_globals"
proof -
  have 1: "length (trimmed_tokens (GetStr config_cake_one_size ''dim_sizes'')) < 2"
    by (simp add: config_cake_one_size_def string_eval)
  have 2: "3 \<le> length (trimmed_tokens ''{2,2,2,5}'')
      \<and> trimmed_tokens ''{2,2,2}'' = take 3 (trimmed_tokens ''{2,2,2,5}'')"
    by (simp add: string_eval)
  from Cake_dim_sizes_count[of config_cake_one_size initial_globals] 1
  have 3: "isl (Cake config_cake_one_size initial_globals)" by blast
  from Cake_dim_sizes_count[of Map.empty initial_globals "''{2,2,2,5}''" "''{2,2,2}''"] 2
  have 4: "Cake (Map.empty(''dim_sizes'' \<mapsto> ''{2,2,2,5}'')) initial_globals
       = Cake (Map.empty(''dim_sizes'' \<mapsto> ''{2,2,2}'')) initial_globals" by blast
  from 1 2 3 4 show ?thesis by blast
qed

theorem Cake_four_sizes_counterexample:
  "length (trimmed_tokens (GetStr config_cake_four_sizes ''dim_sizes'')) = 4
   \<and> \<not> isl (Cake config_cake_four_sizes initial_globals)
   \<and> m_x (fst (projr (Cake config_cake_four_sizes initial_globals))) = 2
   \<and> m_y (fst (projr (Cake config_cake_four_sizes initial_globals))) = 2
   \<and> m_layers (fst (projr (Cake config_cake_four_sizes initial_globals))) = 2"
  by (simp add: config_cake_four_sizes_def initial_globals_def Cake_eval Cake_BuildNet_fields)

section \<open>UniTorus: per-dimension attributes\<close>

lemma resize_Nil: "resize [] n v = replicate n v"
  by (simp add: resize_def)

lemma positive_values_loop_Inr:
  "positive_values_loop name toks acc = Inr vs \<Longrightarrow> \<forall>v\<in>set acc. 0 < v \<Longrightarrow>
     (\<forall>v\<in>set vs. 0 < v) \<and> length vs = length acc + length toks"
proof (induction toks arbitrary: acc)
  case Nil
  then show ?case by simp
next
  case (Cons t toks)
  from Cons.prems(1) have pos: "0 < atoi t"
    and rest: "positive_values_loop name toks (acc @ [atoi t]) = Inr vs"
    by (auto simp: Let_def split: if_splits)
  from Cons.IH[OF rest] pos Cons.prems(2) show ?case by simp
qed

lemma parseAndValidate_Inr:
  assumes "parseAndValidate n str name = Inr vs"
  shows "vs = [] \<or> (length vs = n \<and> (\<forall>v\<in>set vs. 0 < v))"
proof (cases "str = [] \<or> str = ''0''")
  case True
  with assms show ?thesis by (simp add: parseAndValidate_def)
next
  case False
  with assms have "positive_values_loop name (trimmed_tokens str) [] = Inr vs"
    and "length (trimmed_tokens str) = n"
    by (auto simp: parseAndValidate_def Let_def split: if_splits)
  with positive_values_loop_Inr[of name "trimmed_tokens str" "[]" vs] show ?thesis by simp
qed

lemma parse_zero_string:
  "parseAndValidate n ''0'' name = Inr []" "parseAndValidate n [] name = Inr []"
  "parseAndValidatePenalty n ''0'' name = Inr []" "parseAndValidatePenalty n [] name = Inr []"
  by (simp_all add: parseAndValidate_def parseAndValidatePenalty_def)

lemma UniTorus_stages:
  assumes "UniTorus config g = Inr (u, g')"
  obtains u1 where "UniTorus_ComputeSize config g = Inr (u1, g')"
    and "UniTorus_ParseDirectionConfig config u1 = Inr u"
  using assms by (auto simp: UniTorus_def split: sum.splits)

lemma UniTorus_ComputeSize_other_key:
  "k \<noteq> ''dim_sizes'' \<Longrightarrow>
     UniTorus_ComputeSize (config(k := v)) g = UniTorus_ComputeSize config g"
  by (simp add: UniTorus_ComputeSize_def GetStr_other_key)

lemma GetStr_upd_same: "GetStr (config(k \<mapsto> v)) k = v" "GetStr (config(k := None)) k = []"
  by (simp_all add: GetStr_def)

lemma GetStr_attribute_upd:
  "GetStr (config(''dim_bandwidth'' := v)) ''dim_latency'' = GetStr config ''dim_latency''"
  "GetStr (config(''dim_bandwidth'' := v)) ''dim_penalty'' = GetStr config ''dim_penalty''"
  "GetStr (config(''dim_latency'' := v)) ''dim_bandwidth'' = GetStr config ''dim_bandwidth''"
  "GetStr (config(''dim_latency'' := v)) ''dim_penalty'' = GetStr config ''dim_penalty''"
  "GetStr (config(''dim_penalty'' := v)) ''dim_bandwidth'' = GetStr config ''dim_bandwidth''"
  "GetStr (config(''dim_penalty'' := v)) ''dim_latency'' = GetStr config ''dim_latency''"
  by (simp_all add: GetStr_def)

lemma UniTorus_cong:
  "UniTorus_ComputeSize config g = UniTorus_ComputeSize config' g \<Longrightarrow>
   (\<And>u. UniTorus_ParseDirectionConfig config u = UniTorus_ParseDirectionConfig config' u) \<Longrightarrow>
   UniTorus config g = UniTorus config' g"
  by (simp add: UniTorus_def split: sum.splits)

lemma UniTorus_ParseDirectionConfig_zero:
  "UniTorus_ParseDirectionConfig (config(''dim_bandwidth'' \<mapsto> ''0'')) u
     = UniTorus_ParseDirectionConfig (config(''dim_bandwidth'' := None)) u"
  "UniTorus_ParseDirectionConfig (config(''dim_latency'' \<mapsto> ''0'')) u
     = UniTorus_ParseDirectionConfig (config(''dim_latency'' := None)) u"
  "UniTorus_ParseDirectionConfig (config(''dim_penalty'' \<mapsto> ''0'')) u
     = UniTorus_ParseDirectionConfig (config(''dim_penalty'' := None)) u"
  unfolding UniTorus_ParseDirectionConfig_def GetStr_attribute_upd GetStr_upd_same
    parse_zero_string
  by (rule refl)+

lemma UniTorus_attributes:
  assumes "UniTorus config g = Inr (u, g')"
  shows "\<exists>bw lat pen.
      parseAndValidate (length (m_dim_sizes u)) (GetStr config ''dim_bandwidth'')
        ''dim_bandwidth'' = Inr bw
    \<and> parseAndValidate (length (m_dim_sizes u)) (GetStr config ''dim_latency'')
        ''dim_latency'' = Inr lat
    \<and> parseAndValidatePenalty (length (m_dim_sizes u)) (GetStr config ''dim_penalty'')
        ''dim_penalty'' = Inr pen
    \<and> m_dim_bandwidth u = (if bw \<noteq> [] then bw else replicate (length (m_dim_sizes u)) 1)
    \<and> m_dim_latency u = (if lat \<noteq> [] then lat else replicate (length (m_dim_sizes u)) 1)
    \<and> m_dim_penalty u = (if pen \<noteq> [] then pen else replicate (length (m_dim_sizes u)) 0)"
proof -
  from assms obtain u1 where c: "UniTorus_ComputeSize config g = Inr (u1, g')"
    and p: "UniTorus_ParseDirectionConfig config u1 = Inr u"
    by (rule UniTorus_stages)
  from UniTorus_ComputeSize_Inr[OF c]
  have e: "m_dim_bandwidth u1 = []" "m_dim_latency u1 = []" "m_dim_penalty u1 = []" by simp_all
  from UniTorus_ParseDirectionConfig_sizes[OF p] have s: "m_dim_sizes u1 = m_dim_sizes u" by simp
  from p obtain bw lat pen where
    bw: "parseAndValidate (length (m_dim_sizes u1)) (GetStr config ''dim_bandwidth'')
        ''dim_bandwidth'' = Inr bw"
    and lat: "parseAndValidate (length (m_dim_sizes u1)) (GetStr config ''dim_latency'')
        ''dim_latency'' = Inr lat"
    and pen: "parseAndValidatePenalty (length (m_dim_sizes u1)) (GetStr config ''dim_penalty'')
        ''dim_penalty'' = Inr pen"
    unfolding UniTorus_ParseDirectionConfig_def Let_def
    by (auto split: sum.splits)
  from p have "m_dim_bandwidth u = (if bw \<noteq> [] then bw else replicate (length (m_dim_sizes u1)) 1)
    \<and> m_dim_latency u = (if lat \<noteq> [] then lat else replicate (length (m_dim_sizes u1)) 1)
    \<and> m_dim_penalty u = (if pen \<noteq> [] then pen else replicate (length (m_dim_sizes u1)) 0)"
    unfolding UniTorus_ParseDirectionConfig_def Let_def bw lat pen e resize_Nil
    by (cases "bw = []"; cases "lat = []"; cases "pen = []") auto
  with bw lat pen s show ?thesis by auto
qed

text \<open>
  C10. For each of \<open>dim_bandwidth\<close>, \<open>dim_latency\<close> and \<open>dim_penalty\<close>, the UniTorus
  constructor does with the value \<open>"0"\<close> exactly what it does when the key is missing,
  and a network built with the value \<open>"0"\<close> has the defaults in every dimension:
  bandwidth 1, latency 1, penalty 0.
\<close>

theorem UniTorus_zero_string_is_missing:
  "UniTorus (config(''dim_bandwidth'' \<mapsto> ''0'')) g = UniTorus (config(''dim_bandwidth'' := None)) g
   \<and> UniTorus (config(''dim_latency'' \<mapsto> ''0'')) g = UniTorus (config(''dim_latency'' := None)) g
   \<and> UniTorus (config(''dim_penalty'' \<mapsto> ''0'')) g = UniTorus (config(''dim_penalty'' := None)) g
   \<and> (UniTorus config g = Inr (u, g') \<longrightarrow>
        (GetStr config ''dim_bandwidth'' = ''0'' \<longrightarrow>
           m_dim_bandwidth u = replicate (length (m_dim_sizes u)) 1)
      \<and> (GetStr config ''dim_latency'' = ''0'' \<longrightarrow>
           m_dim_latency u = replicate (length (m_dim_sizes u)) 1)
      \<and> (GetStr config ''dim_penalty'' = ''0'' \<longrightarrow>
           m_dim_penalty u = replicate (length (m_dim_sizes u)) 0))"
proof -
  have same: "UniTorus (config(''dim_bandwidth'' \<mapsto> ''0'')) g
                = UniTorus (config(''dim_bandwidth'' := None)) g"
    "UniTorus (config(''dim_latency'' \<mapsto> ''0'')) g
                = UniTorus (config(''dim_latency'' := None)) g"
    "UniTorus (config(''dim_penalty'' \<mapsto> ''0'')) g
                = UniTorus (config(''dim_penalty'' := None)) g"
    by (rule UniTorus_cong,
        simp add: UniTorus_ComputeSize_other_key, rule UniTorus_ParseDirectionConfig_zero)+
  have dflt: "(GetStr config ''dim_bandwidth'' = ''0'' \<longrightarrow>
           m_dim_bandwidth u = replicate (length (m_dim_sizes u)) 1)
      \<and> (GetStr config ''dim_latency'' = ''0'' \<longrightarrow>
           m_dim_latency u = replicate (length (m_dim_sizes u)) 1)
      \<and> (GetStr config ''dim_penalty'' = ''0'' \<longrightarrow>
           m_dim_penalty u = replicate (length (m_dim_sizes u)) 0)"
    if "UniTorus config g = Inr (u, g')"
    using UniTorus_attributes[OF that] by (auto simp: parse_zero_string)
  from same dflt show ?thesis by blast
qed

lemma UniTorus_zero_strings_built:
  "UniTorus config_unitorus_zero_strings initial_globals =
     Inr (\<lparr> m_size = 9, m_nodes = 9, m_channels = 18, m_routers = (\<lambda>_. None),
             m_dim_sizes = [3, 3], m_dim_bandwidth = [1, 1], m_dim_latency = [1, 1],
             m_dim_penalty = [0, 0] \<rparr>,
          \<lparr> gK = 3, gN = 2, gDimSizes = [3, 3], gRoutingFunctionMap = Map.empty \<rparr>)"
  by (simp add: example_configs UniTorus_eval)

theorem UniTorus_zero_string_is_missing_witness:
  "\<not> isl (UniTorus config_unitorus_zero_strings initial_globals)
   \<and> GetStr config_unitorus_zero_strings ''dim_bandwidth'' = ''0''
   \<and> GetStr config_unitorus_zero_strings ''dim_latency'' = ''0''
   \<and> GetStr config_unitorus_zero_strings ''dim_penalty'' = ''0''
   \<and> m_dim_sizes (fst (projr (UniTorus config_unitorus_zero_strings initial_globals))) = [3, 3]
   \<and> m_dim_bandwidth (fst (projr (UniTorus config_unitorus_zero_strings initial_globals))) = [1, 1]
   \<and> m_dim_latency (fst (projr (UniTorus config_unitorus_zero_strings initial_globals))) = [1, 1]
   \<and> m_dim_penalty (fst (projr (UniTorus config_unitorus_zero_strings initial_globals))) = [0, 0]"
proof -
  let ?U = "UniTorus config_unitorus_zero_strings initial_globals"
  have b: "?U = Inr (fst (projr ?U), snd (projr ?U))"
    by (simp add: UniTorus_zero_strings_built)
  have k: "GetStr config_unitorus_zero_strings ''dim_bandwidth'' = ''0''"
    "GetStr config_unitorus_zero_strings ''dim_latency'' = ''0''"
    "GetStr config_unitorus_zero_strings ''dim_penalty'' = ''0''"
    by (simp_all add: config_unitorus_zero_strings_def GetStr_def)
  have s: "m_dim_sizes (fst (projr ?U)) = [3, 3]" "\<not> isl ?U"
    by (simp_all add: UniTorus_zero_strings_built)
  from UniTorus_zero_string_is_missing[of config_unitorus_zero_strings initial_globals
      "fst (projr ?U)" "snd (projr ?U)"] b k
  have "m_dim_bandwidth (fst (projr ?U)) = replicate (length (m_dim_sizes (fst (projr ?U)))) 1
      \<and> m_dim_latency (fst (projr ?U)) = replicate (length (m_dim_sizes (fst (projr ?U)))) 1
      \<and> m_dim_penalty (fst (projr ?U)) = replicate (length (m_dim_sizes (fst (projr ?U)))) 0"
    by blast
  with s k show ?thesis by (simp add: eval_nat_numeral)
qed

section \<open>UniTorus: capacity\<close>

lemma fold_add_sum:
  "fold (\<lambda>d total. total + f d) [0..<n] (a::real) = a + (\<Sum>d = 0..<n. f d)"
  by (induction n arbitrary: a) simp_all

lemma UniTorus_bandwidth:
  assumes "UniTorus config g = Inr (u, g')"
  shows "length (m_dim_bandwidth u) = length (m_dim_sizes u) \<and> (\<forall>b\<in>set (m_dim_bandwidth u). 0 < b)"
proof -
  from UniTorus_attributes[OF assms] obtain bw where
    bw: "parseAndValidate (length (m_dim_sizes u)) (GetStr config ''dim_bandwidth'')
        ''dim_bandwidth'' = Inr bw"
    and m: "m_dim_bandwidth u = (if bw \<noteq> [] then bw else replicate (length (m_dim_sizes u)) 1)"
    by blast
  from parseAndValidate_Inr[OF bw] m show ?thesis by (cases "bw = []") auto
qed

text \<open>
  Where \<open>_size\<close> is positive and no product \<open>_size * bandwidth[d]\<close> exceeds the largest
  \<^verbatim>\<open>int\<close>, the nodes cancel and the capacity of a constructed UniTorus is the sum of
  the bandwidths.
\<close>

lemma UniTorus_Capacity_no_overflow:
  assumes built: "UniTorus config g = Inr (u, g')"
    and size: "0 < m_size u"
    and fits: "\<forall>b\<in>set (m_dim_bandwidth u). m_size u * b < 2 ^ 31"
  shows "UniTorus_Capacity u = real_of_int (sum_list (m_dim_bandwidth u))"
proof -
  from UniTorus_bandwidth[OF built]
  have len: "length (m_dim_bandwidth u) = length (m_dim_sizes u)"
    and pos: "\<forall>b\<in>set (m_dim_bandwidth u). 0 < b" by simp_all
  have quot: "real_of_int (int32_wrap (m_size u * (m_dim_bandwidth u ! d))) / real_of_int (m_size u)
              = real_of_int (m_dim_bandwidth u ! d)"
    if d: "d < length (m_dim_sizes u)" for d
  proof -
    from d len have mem: "m_dim_bandwidth u ! d \<in> set (m_dim_bandwidth u)" by simp
    with pos fits have "0 < m_dim_bandwidth u ! d" "m_size u * (m_dim_bandwidth u ! d) < 2 ^ 31"
      by auto
    moreover from this size have "0 \<le> m_size u * (m_dim_bandwidth u ! d)" by simp
    ultimately have "int32_wrap (m_size u * (m_dim_bandwidth u ! d))
                       = m_size u * (m_dim_bandwidth u ! d)"
      by (intro int32_wrap_id) simp_all
    with size show ?thesis by simp
  qed
  have "UniTorus_Capacity u =
          (\<Sum>d = 0..<length (m_dim_sizes u).
             real_of_int (int32_wrap (m_size u * (m_dim_bandwidth u ! d))) / real_of_int (m_size u))"
    by (simp add: UniTorus_Capacity_def fold_add_sum)
  also have "\<dots> = (\<Sum>d = 0..<length (m_dim_sizes u). real_of_int (m_dim_bandwidth u ! d))"
    by (rule sum.cong) (simp_all add: quot)
  also have "\<dots> = real_of_int (sum_list (m_dim_bandwidth u))"
    by (simp add: sum_list_sum_nth len)
  finally show ?thesis .
qed

lemma UniTorus_wide_built:
  "UniTorus config_unitorus_wide initial_globals =
     Inr (\<lparr> m_size = 16, m_nodes = 16, m_channels = 32, m_routers = (\<lambda>_. None),
             m_dim_sizes = [4, 4], m_dim_bandwidth = [134217728, 1], m_dim_latency = [1, 1],
             m_dim_penalty = [0, 0] \<rparr>,
          \<lparr> gK = 4, gN = 2, gDimSizes = [4, 4], gRoutingFunctionMap = Map.empty \<rparr>)"
  by (simp add: example_configs UniTorus_eval)

text \<open>
  C6. The claim is that \<open>Capacity()\<close> of every constructed UniTorus is the sum of its
  bandwidths. On the 4 by 4 torus with bandwidths 134217728 and 1 the product
  \<open>16 * 134217728 = 2^31\<close> does not fit a 32-bit \<^verbatim>\<open>int\<close>; after the wrap-around the
  function returns -134217727, while the sum of the bandwidths is 134217729.
\<close>

theorem UniTorus_Capacity_overflow:
  "\<not> isl (UniTorus config_unitorus_wide initial_globals)
   \<and> m_size (fst (projr (UniTorus config_unitorus_wide initial_globals))) = 16
   \<and> m_dim_bandwidth (fst (projr (UniTorus config_unitorus_wide initial_globals)))
       = [134217728, 1]
   \<and> sum_list (m_dim_bandwidth (fst (projr (UniTorus config_unitorus_wide initial_globals))))
       = 134217729
   \<and> UniTorus_Capacity (fst (projr (UniTorus config_unitorus_wide initial_globals)))
       = - 134217727"
  by (simp add: UniTorus_wide_built UniTorus_Capacity_def int32_wrap_def eval_nat_numeral)

section \<open>Cake: what parsing establishes\<close>

lemma elevator_loop_Inr:
  "elevator_loop X Y ts (elevs, index) = Inr (elevs', index') \<Longrightarrow>
   distinct elevs \<Longrightarrow> \<forall>p\<in>set elevs. in_plane X Y p \<Longrightarrow>
   dom index = (\<lambda>p. Cake_Key (fst p) (snd p)) ` set elevs \<Longrightarrow>
   distinct elevs' \<and> (\<forall>p\<in>set elevs'. in_plane X Y p)
   \<and> dom index' = (\<lambda>p. Cake_Key (fst p) (snd p)) ` set elevs'"
proof (induction ts arbitrary: elevs index)
  case Nil
  then show ?case by simp
next
  case (Cons t ts)
  show ?case
  proof (cases "CHR '','' \<in> set t")
    case False
    with Cons.prems(1) have "elevator_loop X Y ts (elevs, index) = Inr (elevs', index')"
      by simp
    from Cons.IH[OF this Cons.prems(2-4)] show ?thesis .
  next
    case True
    let ?ex = "atoi (takeWhile (\<lambda>c. c \<noteq> CHR '','') t)"
    let ?ey = "atoi (tl (dropWhile (\<lambda>c. c \<noteq> CHR '','') t))"
    from True Cons.prems(1) have rng: "in_plane X Y (?ex, ?ey)"
      by (auto simp: in_plane_def Let_def split: if_splits)
    show ?thesis
    proof (cases "index (Cake_Key ?ex ?ey) = None")
      case None: True
      with True rng Cons.prems(1)
      have run: "elevator_loop X Y ts
             (elevs @ [(?ex, ?ey)], index(Cake_Key ?ex ?ey \<mapsto> int (length elevs)))
           = Inr (elevs', index')"
        by (auto simp: in_plane_def Let_def split: if_splits)
      from None Cons.prems(4) have new: "(?ex, ?ey) \<notin> set elevs"
        by (force simp: dom_def)
      from new Cons.prems(2) have d: "distinct (elevs @ [(?ex, ?ey)])" by simp
      from rng Cons.prems(3) have r: "\<forall>p\<in>set (elevs @ [(?ex, ?ey)]). in_plane X Y p" by simp
      from Cons.prems(4)
      have k: "dom (index(Cake_Key ?ex ?ey \<mapsto> int (length elevs)))
          = (\<lambda>p. Cake_Key (fst p) (snd p)) ` set (elevs @ [(?ex, ?ey)])"
        by simp
      from Cons.IH[OF run d r k] show ?thesis .
    next
      case False
      with True rng Cons.prems(1)
      have "elevator_loop X Y ts (elevs, index) = Inr (elevs', index')"
        by (auto simp: in_plane_def Let_def split: if_splits)
      from Cons.IH[OF this Cons.prems(2-4)] show ?thesis .
    qed
  qed
qed

lemma table_in_plane_update:
  assumes "table_in_plane X Y emap" and "in_plane X Y p"
  shows "table_in_plane X Y (emap[i := (emap ! i)[j := p]])"
proof (cases "i < length emap")
  case False
  with assms show ?thesis by (simp add: list_update_beyond)
next
  case True
  then have row: "emap ! i \<in> set emap" by simp
  have "set ((emap ! i)[j := p]) \<subseteq> insert p (set (emap ! i))"
    by (rule set_update_subset_insert)
  with assms row have ok: "length ((emap ! i)[j := p]) = nat X
      \<and> (\<forall>q\<in>set ((emap ! i)[j := p]). in_plane X Y q)"
    by (auto simp: table_in_plane_def)
  have "set (emap[i := (emap ! i)[j := p]]) \<subseteq> insert ((emap ! i)[j := p]) (set emap)"
    by (rule set_update_subset_insert)
  moreover have "length (emap[i := (emap ! i)[j := p]]) = length emap" by simp
  ultimately show ?thesis
    using assms(1) ok unfolding table_in_plane_def by (auto simp del: length_list_update)
qed

lemma table_in_plane_replicate:
  "0 < X \<Longrightarrow> 0 < Y \<Longrightarrow> table_in_plane X Y (replicate (nat Y) (replicate (nat X) (0, 0)))"
  by (simp add: table_in_plane_def in_plane_def)

text \<open>
  A successful run of the row loop has checked the \<open>length rxs\<close> pairs of numbers
  from position \<open>idx\<close> on, and has advanced \<open>idx\<close> past them.
\<close>

lemma mapping_row_loop_Inr:
  "mapping_row_loop X Y nums ry rxs (idx, emap) = Inr (idx', emap') \<Longrightarrow>
   table_in_plane X Y emap \<Longrightarrow>
   table_in_plane X Y emap' \<and> idx' = idx + 2 * length rxs
   \<and> (\<forall>k<length rxs. in_plane X Y (nums ! (idx + 2 * k), nums ! (idx + 2 * k + 1)))"
proof (induction rxs arbitrary: idx emap)
  case Nil
  then show ?case by simp
next
  case (Cons rx rxs)
  let ?p = "(nums ! idx, nums ! (idx + 1))"
  from Cons.prems(1) have rng: "in_plane X Y ?p"
    and run: "mapping_row_loop X Y nums ry rxs
                (idx + 2, emap[nat ry := (emap ! nat ry)[nat rx := ?p]]) = Inr (idx', emap')"
    by (auto simp: in_plane_def Let_def split: if_splits)
  from Cons.IH[OF run table_in_plane_update[OF Cons.prems(2) rng]]
  have ih: "table_in_plane X Y emap'" "idx' = idx + 2 + 2 * length rxs"
    "\<forall>k<length rxs. in_plane X Y (nums ! (idx + 2 + 2 * k), nums ! (idx + 2 + 2 * k + 1))"
    by simp_all
  have "in_plane X Y (nums ! (idx + 2 * k), nums ! (idx + 2 * k + 1))"
    if "k < length (rx # rxs)" for k
  proof (cases k)
    case 0
    with rng show ?thesis by simp
  next
    case (Suc k')
    with that ih(3) show ?thesis by (simp add: algebra_simps)
  qed
  with ih show ?case by simp
qed

lemma mapping_loop_Inr:
  "mapping_loop X Y nums rys (idx, emap) = Inr (idx', emap') \<Longrightarrow>
   table_in_plane X Y emap \<Longrightarrow> 0 < X \<Longrightarrow>
   table_in_plane X Y emap' \<and> idx' = idx + 2 * (length rys * nat X)
   \<and> (\<forall>k<length rys * nat X. in_plane X Y (nums ! (idx + 2 * k), nums ! (idx + 2 * k + 1)))"
proof (induction rys arbitrary: idx emap)
  case Nil
  then show ?case by simp
next
  case (Cons ry rys)
  from Cons.prems(1) obtain idx1 emap1 where
    row: "mapping_row_loop X Y nums ry [0..X - 1] (idx, emap) = Inr (idx1, emap1)"
    and rest: "mapping_loop X Y nums rys (idx1, emap1) = Inr (idx', emap')"
    by (auto split: sum.splits)
  have len: "length [0..X - 1] = nat X" using Cons.prems(3) by simp
  from mapping_row_loop_Inr[OF row Cons.prems(2)] len
  have r: "table_in_plane X Y emap1" "idx1 = idx + 2 * nat X"
    "\<forall>k<nat X. in_plane X Y (nums ! (idx + 2 * k), nums ! (idx + 2 * k + 1))"
    by simp_all
  from Cons.IH[OF rest r(1) Cons.prems(3)]
  have ih: "table_in_plane X Y emap'" "idx' = idx1 + 2 * (length rys * nat X)"
    "\<forall>k<length rys * nat X. in_plane X Y (nums ! (idx1 + 2 * k), nums ! (idx1 + 2 * k + 1))"
    by simp_all
  have "in_plane X Y (nums ! (idx + 2 * k), nums ! (idx + 2 * k + 1))"
    if k: "k < length (ry # rys) * nat X" for k
  proof (cases "k < nat X")
    case True
    with r(3) show ?thesis by simp
  next
    case False
    then have "k - nat X < length rys * nat X" using k by simp
    with ih(3) have "in_plane X Y (nums ! (idx1 + 2 * (k - nat X)), nums ! (idx1 + 2 * (k - nat X) + 1))"
      by blast
    moreover have "idx1 + 2 * (k - nat X) = idx + 2 * k" using False r(2) by simp
    ultimately show ?thesis by simp
  qed
  with ih r(2) show ?case by (simp add: algebra_simps)
qed

lemma identity_mapping_in_plane:
  assumes "table_in_plane X Y emap"
  shows "table_in_plane X Y (identity_mapping X Y emap)"
proof -
  have row: "table_in_plane X Y
               (fold (\<lambda>rx em. em[nat ry := (em ! nat ry)[nat rx := (rx, ry)]]) rxs em)"
    if "table_in_plane X Y em" "\<forall>rx\<in>set rxs. 0 \<le> rx \<and> rx < X" "0 \<le> ry" "ry < Y"
    for rxs ry em
    using that
  proof (induction rxs arbitrary: em)
    case Nil
    then show ?case by simp
  next
    case (Cons rx rxs)
    from Cons.prems have "in_plane X Y (rx, ry)" by (simp add: in_plane_def)
    from table_in_plane_update[OF Cons.prems(1) this] Cons.IH Cons.prems
    show ?case by simp
  qed
  have rows: "table_in_plane X Y
               (fold (\<lambda>ry. fold (\<lambda>rx em. em[nat ry := (em ! nat ry)[nat rx := (rx, ry)]])
                              [0..X - 1]) rys em)"
    if "table_in_plane X Y em" "\<forall>ry\<in>set rys. 0 \<le> ry \<and> ry < Y" for rys em
    using that
  proof (induction rys arbitrary: em)
    case Nil
    then show ?case by simp
  next
    case (Cons ry rys)
    have "table_in_plane X Y
            (fold (\<lambda>rx em. em[nat ry := (em ! nat ry)[nat rx := (rx, ry)]]) [0..X - 1] em)"
      using Cons.prems by (intro row) auto
    from Cons.IH[OF this] Cons.prems show ?case by simp
  qed
  show ?thesis unfolding identity_mapping_def using assms by (intro rows) auto
qed

lemma Cake_parse_elevator_coords_Inr:
  assumes "Cake_parse_elevator_coords config c = Inr (elevs, index)"
  shows "distinct elevs \<and> (\<forall>p\<in>set elevs. in_plane (m_x c) (m_y c) p)
        \<and> dom index = (\<lambda>p. Cake_Key (fst p) (snd p)) ` set elevs"
proof -
  let ?es = "(if GetStr config ''elevator_coords'' = [] then GetStr config ''elevatorcoords''
              else GetStr config ''elevator_coords'')"
  show ?thesis
  proof (cases "?es = []")
    case True
    with assms show ?thesis by (simp add: Cake_parse_elevator_coords_def Let_def)
  next
    case False
    with assms
    have "elevator_loop (m_x c) (m_y c) (stream_tokens (braces_to_spaces ?es)) ([], Map.empty)
        = Inr (elevs, index)" by (simp add: Cake_parse_elevator_coords_def Let_def)
    from elevator_loop_Inr[OF this] show ?thesis by simp
  qed
qed

lemma Cake_parse_elevator_mapping_Inr:
  assumes m: "Cake_parse_elevator_mapping config c = Inr emap"
    and X: "0 < m_x c" and Y: "0 < m_y c"
  shows "table_in_plane (m_x c) (m_y c) emap
      \<and> (mapping_string config \<noteq> [] \<longrightarrow> (\<forall>k<nat (m_y c) * nat (m_x c).
            in_plane (m_x c) (m_y c)
              (mapping_nums (mapping_string config) ! (2 * k),
               mapping_nums (mapping_string config) ! (2 * k + 1))))"
proof -
  let ?X = "m_x c" and ?Y = "m_y c"
  let ?ms = "mapping_string config"
  let ?emap0 = "replicate (nat ?Y) (replicate (nat ?X) (0::int, 0::int))"
  have t0: "table_in_plane ?X ?Y ?emap0" using X Y by (rule table_in_plane_replicate)
  show ?thesis
  proof (cases "?ms = []")
    case True
    with m have "emap = identity_mapping ?X ?Y ?emap0"
      by (simp add: Cake_parse_elevator_mapping_def Let_def)
    with identity_mapping_in_plane[OF t0] True show ?thesis by simp
  next
    case False
    with m obtain idx where
      "mapping_loop ?X ?Y (mapping_nums ?ms) [0..?Y - 1] (0, ?emap0) = Inr (idx, emap)"
      by (auto simp: Cake_parse_elevator_mapping_def Let_def split: if_splits sum.splits)
    from mapping_loop_Inr[OF this t0 X] Y show ?thesis by simp
  qed
qed

lemma Cake_ParseElevators_Inr:
  assumes p: "Cake_ParseElevators config c = Inr c'" and X: "0 < m_x c" and Y: "0 < m_y c"
  shows "distinct (m_elevators c') \<and> (\<forall>p\<in>set (m_elevators c'). in_plane (m_x c) (m_y c) p)
    \<and> dom (m_elevator_index c') = (\<lambda>p. Cake_Key (fst p) (snd p)) ` set (m_elevators c')
    \<and> table_in_plane (m_x c) (m_y c) (m_elevator_map c')
    \<and> (mapping_string config \<noteq> [] \<longrightarrow>
         (\<forall>k<nat (m_y c) * nat (m_x c).
            in_plane (m_x c) (m_y c)
              (mapping_nums (mapping_string config) ! (2 * k),
               mapping_nums (mapping_string config) ! (2 * k + 1))))"
proof -
  from p obtain elevs index emap where
    e: "Cake_parse_elevator_coords config c = Inr (elevs, index)"
    and m: "Cake_parse_elevator_mapping config c = Inr emap"
    and c': "m_elevators c' = elevs" "m_elevator_index c' = index" "m_elevator_map c' = emap"
    by (auto simp: Cake_ParseElevators_def Let_def split: sum.splits prod.splits)
  from Cake_parse_elevator_coords_Inr[OF e] Cake_parse_elevator_mapping_Inr[OF m X Y] c'
  show ?thesis by simp
qed

lemma Cake_Inr_parsed:
  assumes "Cake config g = Inr (c, g')"
  obtains c2 where "c = Cake_BuildNet c2" and "cake_parsed c2"
    and "mapping_string config \<noteq> [] \<longrightarrow>
         (\<forall>k<nat (m_y c2) * nat (m_x c2).
            in_plane (m_x c2) (m_y c2)
              (mapping_nums (mapping_string config) ! (2 * k),
               mapping_nums (mapping_string config) ! (2 * k + 1)))"
proof -
  from assms obtain c1 c2 where cs: "Cake_ComputeSize config g = Inr (c1, g')"
    and pe: "Cake_ParseElevators config c1 = Inr c2" and b: "c = Cake_BuildNet c2"
    by (rule Cake_Inr_stages)
  note s = Cake_ComputeSize_Inr[OF cs]
  note f = Cake_ParseElevators_sizes[OF pe]
  from s have X: "0 < m_x c1" and Y: "0 < m_y c1" by simp_all
  note e = Cake_ParseElevators_Inr[OF pe X Y]
  from s f e have "cake_parsed c2" unfolding cake_parsed_def by simp
  moreover from e f have "mapping_string config \<noteq> [] \<longrightarrow>
         (\<forall>k<nat (m_y c2) * nat (m_x c2).
            in_plane (m_x c2) (m_y c2)
              (mapping_nums (mapping_string config) ! (2 * k),
               mapping_nums (mapping_string config) ! (2 * k + 1)))" by simp
  ultimately show ?thesis using b that by blast
qed

lemma Cake_mapping_count:
  assumes "Cake config g = Inr (c, g')" and "mapping_string config \<noteq> []"
  shows "int (length (mapping_nums (mapping_string config))) = m_x c * m_y c * 2"
proof -
  from assms(1) obtain c1 c2 where cs: "Cake_ComputeSize config g = Inr (c1, g')"
    and pe: "Cake_ParseElevators config c1 = Inr c2" and b: "c = Cake_BuildNet c2"
    by (rule Cake_Inr_stages)
  from pe obtain emap where "Cake_parse_elevator_mapping config c1 = Inr emap"
    by (auto simp: Cake_ParseElevators_def split: sum.splits prod.splits)
  with assms(2) have "int (length (mapping_nums (mapping_string config))) = m_x c1 * m_y c1 * 2"
    by (auto simp: Cake_parse_elevator_mapping_def Let_def split: if_splits)
  with Cake_ParseElevators_sizes[OF pe] b show ?thesis by (simp add: Cake_BuildNet_fields)
qed

text \<open>
  C2 (as amended). Whenever construction succeeds, the mapping table has \<open>Y\<close> rows of
  \<open>X\<close> entries and every entry lies in \<open>[0,X) \<times> [0,Y)\<close>; if a mapping was configured,
  exactly \<open>2 * X * Y\<close> numbers were read from it and each of the \<open>X * Y\<close> pairs they
  form lies in that range as well, so that construction fails whenever one of them
  does not. Whether an entry is an elevator coordinate is not checked.
\<close>

theorem Cake_mapping_in_range:
  assumes "Cake config g = Inr (c, g')"
  shows "length (m_elevator_map c) = nat (m_y c)
    \<and> (\<forall>row\<in>set (m_elevator_map c). length row = nat (m_x c)
          \<and> (\<forall>p\<in>set row. 0 \<le> fst p \<and> fst p < m_x c \<and> 0 \<le> snd p \<and> snd p < m_y c))
    \<and> (mapping_string config \<noteq> [] \<longrightarrow>
         int (length (mapping_nums (mapping_string config))) = m_x c * m_y c * 2
         \<and> (\<forall>k<nat (m_y c) * nat (m_x c).
            0 \<le> mapping_nums (mapping_string config) ! (2 * k)
            \<and> mapping_nums (mapping_string config) ! (2 * k) < m_x c
            \<and> 0 \<le> mapping_nums (mapping_string config) ! (2 * k + 1)
            \<and> mapping_nums (mapping_string config) ! (2 * k + 1) < m_y c))"
proof -
  from assms obtain c2 where b: "c = Cake_BuildNet c2" and p: "cake_parsed c2"
    and n: "mapping_string config \<noteq> [] \<longrightarrow>
         (\<forall>k<nat (m_y c2) * nat (m_x c2).
            in_plane (m_x c2) (m_y c2)
              (mapping_nums (mapping_string config) ! (2 * k),
               mapping_nums (mapping_string config) ! (2 * k + 1)))"
    by (rule Cake_Inr_parsed)
  from p have "table_in_plane (m_x c2) (m_y c2) (m_elevator_map c2)"
    by (simp add: cake_parsed_def)
  with n b Cake_mapping_count[OF assms] show ?thesis
    by (simp add: Cake_BuildNet_fields table_in_plane_def in_plane_def)
qed

lemma Cake_mapping_built:
  "Cake config_cake_mapping initial_globals =
     Inr (Cake_BuildNet
            \<lparr> m_size = 4, m_nodes = 4, m_channels = 10, m_routers = (\<lambda>_. None),
              m_x = 2, m_y = 2, m_layers = 1, m_elevators = [(0, 0)],
              m_elevator_index = [0 \<mapsto> 0],
              m_elevator_map = [[(1, 1), (0, 0)], [(0, 0), (0, 0)]],
              m_inplane_channels = 8, m_vertical_channels = 2 \<rparr>,
          \<lparr> gK = 2, gN = 2, gDimSizes = [], gRoutingFunctionMap = Map.empty \<rparr>)"
  by (simp add: example_configs Cake_eval eval_nat_numeral)

theorem Cake_mapping_in_range_witness:
  "\<not> isl (Cake config_cake_mapping initial_globals)
   \<and> mapping_string config_cake_mapping \<noteq> []
   \<and> m_x (fst (projr (Cake config_cake_mapping initial_globals))) = 2
   \<and> m_y (fst (projr (Cake config_cake_mapping initial_globals))) = 2
   \<and> m_elevator_map (fst (projr (Cake config_cake_mapping initial_globals)))
       = [[(1, 1), (0, 0)], [(0, 0), (0, 0)]]
   \<and> [(1, 1), (0, 0)] \<in> set (m_elevator_map (fst (projr (Cake config_cake_mapping initial_globals))))
   \<and> (1, 1) \<in> set [(1::int, 1::int), (0, 0)]
   \<and> (0::nat) < nat (m_y (fst (projr (Cake config_cake_mapping initial_globals))))
           * nat (m_x (fst (projr (Cake config_cake_mapping initial_globals))))
   \<and> mapping_nums (mapping_string config_cake_mapping) ! (2 * 0) = 1
   \<and> mapping_nums (mapping_string config_cake_mapping) ! (2 * 0 + 1) = 1"
proof -
  let ?C = "Cake config_cake_mapping initial_globals"
  have b: "?C = Inr (fst (projr ?C), snd (projr ?C))" by (simp add: Cake_mapping_built)
  have f: "\<not> isl ?C" "m_x (fst (projr ?C)) = 2" "m_y (fst (projr ?C)) = 2"
    "m_elevator_map (fst (projr ?C)) = [[(1, 1), (0, 0)], [(0, 0), (0, 0)]]"
    by (simp_all add: Cake_mapping_built Cake_BuildNet_fields)
  have s: "mapping_string config_cake_mapping \<noteq> []"
    "mapping_nums (mapping_string config_cake_mapping) = [1, 1, 0, 0, 0, 0, 0, 0]"
    by (simp_all add: mapping_string_def config_cake_mapping_def string_eval Let_def)
  from Cake_mapping_in_range[OF b] f s
  have "0 \<le> mapping_nums (mapping_string config_cake_mapping) ! (2 * 0)
      \<and> mapping_nums (mapping_string config_cake_mapping) ! (2 * 0) < 2"
    by simp
  with f s show ?thesis by simp
qed

theorem Cake_mapping_counterexample:
  "\<not> isl (Cake config_cake_mapping initial_globals)
   \<and> m_elevators (fst (projr (Cake config_cake_mapping initial_globals))) = [(0, 0)]
   \<and> m_elevator_map (fst (projr (Cake config_cake_mapping initial_globals))) ! 0 ! 0 = (1, 1)
   \<and> (1, 1) \<notin> set (m_elevators (fst (projr (Cake config_cake_mapping initial_globals))))"
  by (simp add: Cake_mapping_built Cake_BuildNet_fields)

section \<open>Cake: node numbering\<close>

lemma mixed_radix_bound:
  assumes "0 \<le> a" "a < A" "0 \<le> b" "b < (B::int)"
  shows "0 \<le> b * A + a \<and> b * A + a < A * B"
proof -
  have A: "0 \<le> A" using assms by simp
  have "b + 1 \<le> B" using assms by simp
  then have "(b + 1) * A \<le> B * A" using A by (rule mult_right_mono)
  moreover have "(b + 1) * A = b * A + A" by (simp add: distrib_right)
  moreover have "B * A = A * B" by simp
  moreover have "0 \<le> b * A" using assms A by simp
  ultimately show ?thesis using assms by linarith
qed

lemma Cake_NodeId_bounds:
  assumes "0 \<le> x" "x < m_x c" "0 \<le> y" "y < m_y c" "0 \<le> z" "z < m_layers c"
  shows "0 \<le> Cake_NodeId c x y z \<and> Cake_NodeId c x y z < m_x c * m_y c * m_layers c"
proof -
  from mixed_radix_bound[OF assms(1-4)]
  have p: "0 \<le> y * m_x c + x" "y * m_x c + x < m_x c * m_y c" by simp_all
  from mixed_radix_bound[OF p assms(5,6)]
  show ?thesis by (simp add: Cake_NodeId_def add.assoc)
qed

lemma div_mod_mixed:
  assumes "0 \<le> a" "a < (A::int)"
  shows "(b * A + a) div A = b" and "(b * A + a) mod A = a"
proof -
  have A: "A \<noteq> 0" using assms by simp
  have "(b * A + a) div A = b + a div A" using A by (rule div_mult_self3)
  moreover have "a div A = 0" using assms by (rule div_pos_pos_trivial)
  ultimately show "(b * A + a) div A = b" by simp
  have "(b * A + a) mod A = a mod A" by (rule mod_mult_self3)
  moreover have "a mod A = a" using assms by (rule mod_pos_pos_trivial)
  ultimately show "(b * A + a) mod A = a" by simp
qed

lemma Cake_IdToXYZ_NodeId:
  assumes "0 \<le> x" "x < m_x c" "0 \<le> y" "y < m_y c" "0 \<le> z"
  shows "Cake_IdToXYZ c (Cake_NodeId c x y z) = (x, y, z)"
proof -
  define X where "X = m_x c"
  define P where "P = m_x c * m_y c"
  define p where "p = y * X + x"
  define n where "n = z * P + p"
  have X: "0 < X" using assms by (simp add: X_def)
  from mixed_radix_bound[OF assms(1-4)]
  have p0: "0 \<le> p" and p1: "p < P" by (simp_all add: p_def P_def X_def)
  have plane: "0 < P" using p0 p1 by simp
  have "0 \<le> z * P" using assms(5) plane by simp
  then have n0: "0 \<le> n" using p0 by (simp add: n_def)
  have d: "n div P = z" and m: "n mod P = p"
    unfolding n_def using p0 p1 by (rule div_mod_mixed)+
  have x: "0 \<le> x" "x < X" using assms by (simp_all add: X_def)
  have dy: "p div X = y" and my: "p mod X = x"
    unfolding p_def using x by (rule div_mod_mixed)+
  have id: "Cake_NodeId c x y z = n"
    by (simp add: Cake_NodeId_def n_def p_def P_def X_def)
  have "Cake_IdToXYZ c n = ((n smod P) smod X, (n smod P) sdiv X, n sdiv P)"
    by (simp add: Cake_IdToXYZ_def Let_def P_def X_def)
  also have "n sdiv P = z" using n0 plane d by (simp add: sdiv_nonneg)
  also have "n smod P = p" using n0 plane m by (simp add: smod_nonneg)
  also have "p smod X = x" using p0 X my by (simp add: smod_nonneg)
  also have "p sdiv X = y" using p0 X dy by (simp add: sdiv_nonneg)
  finally show ?thesis using id by simp
qed

lemma Cake_IdToXYZ_bounds:
  assumes "0 < m_x c" "0 < m_y c" "0 < m_layers c"
    and "0 \<le> n" "n < m_x c * m_y c * m_layers c" and "Cake_IdToXYZ c n = (x, y, z)"
  shows "0 \<le> x \<and> x < m_x c \<and> 0 \<le> y \<and> y < m_y c \<and> 0 \<le> z \<and> z < m_layers c
       \<and> Cake_NodeId c x y z = n"
proof -
  define X where "X = m_x c"
  define P where "P = m_x c * m_y c"
  define r where "r = n mod P"
  have X: "0 < X" using assms by (simp add: X_def)
  have plane: "0 < P" using assms by (simp add: P_def)
  have r0: "0 \<le> r" and r1: "r < X * m_y c" using plane by (simp_all add: r_def P_def X_def)
  have "Cake_IdToXYZ c n = ((n smod P) smod X, (n smod P) sdiv X, n sdiv P)"
    by (simp add: Cake_IdToXYZ_def Let_def P_def X_def)
  also have "n sdiv P = n div P" using assms(4) plane by (rule sdiv_nonneg)
  also have "n smod P = r" unfolding r_def using assms(4) plane by (rule smod_nonneg)
  also have "r smod X = r mod X" using r0 X by (rule smod_nonneg)
  also have "r sdiv X = r div X" using r0 X by (rule sdiv_nonneg)
  finally have "(x, y, z) = (r mod X, r div X, n div P)" using assms(6) by simp
  then have x: "x = r mod X" and y: "y = r div X" and z: "z = n div P" by simp_all
  have "0 \<le> z" unfolding z using assms(4) plane by (simp only: pos_imp_zdiv_nonneg_iff)
  moreover have "z < m_layers c" unfolding z using plane assms(5)[folded P_def]
    by (rule div_lt_bound)
  moreover have "0 \<le> y" unfolding y using r0 X by (simp only: pos_imp_zdiv_nonneg_iff)
  moreover have "y < m_y c" unfolding y using X r1 by (rule div_lt_bound)
  moreover have "0 \<le> x" "x < X" unfolding x using X by simp_all
  moreover have "Cake_NodeId c x y z = n"
  proof -
    have "y * X + x = r" unfolding x y by (rule div_mult_mod_eq)
    moreover have "z * P + r = n" unfolding z r_def by (rule div_mult_mod_eq)
    ultimately have "z * P + (y * X + x) = n" by simp
    then show ?thesis by (simp add: Cake_NodeId_def P_def X_def)
  qed
  ultimately show ?thesis by (simp add: X_def)
qed

lemma Cake_NodeId_inj:
  assumes "0 \<le> x" "x < m_x c" "0 \<le> y" "y < m_y c" "0 \<le> z"
    and "0 \<le> x'" "x' < m_x c" "0 \<le> y'" "y' < m_y c" "0 \<le> z'"
    and "Cake_NodeId c x y z = Cake_NodeId c x' y' z'"
  shows "x = x' \<and> y = y' \<and> z = z'"
proof -
  have "(x, y, z) = Cake_IdToXYZ c (Cake_NodeId c x y z)"
    using assms(1-5) by (rule Cake_IdToXYZ_NodeId[symmetric])
  also have "\<dots> = Cake_IdToXYZ c (Cake_NodeId c x' y' z')"
    by (simp only: assms(11))
  also have "\<dots> = (x', y', z')"
    using assms(6-10) by (rule Cake_IdToXYZ_NodeId)
  finally show ?thesis by (simp only: prod.inject)
qed

section \<open>Folds\<close>

lemma fold_product:
  "fold (\<lambda>a. fold (\<lambda>b. f a b) bs) as = fold (\<lambda>(a, b). f a b) (List.product as bs)"
proof (induction as)
  case Nil
  then show ?case by simp
next
  case (Cons a as)
  have "fold (\<lambda>(a, b). f a b) (map (Pair a) bs) = fold (\<lambda>b. f a b) bs"
    by (simp add: fold_map comp_def)
  with Cons show ?case by simp
qed

lemma fold_concat_map:
  "fold f (concat (map g xs)) = fold (\<lambda>x. fold f (g x)) xs"
  by (induction xs) simp_all

lemma filter_unique:
  "distinct xs \<Longrightarrow> a \<in> set xs \<Longrightarrow> (\<forall>b\<in>set xs. P b \<longleftrightarrow> b = a) \<Longrightarrow> filter P xs = [a]"
proof (induction xs)
  case Nil
  then show ?case by simp
next
  case (Cons x xs)
  show ?case
  proof (cases "x = a")
    case True
    with Cons.prems have "\<forall>b\<in>set xs. \<not> P b" by auto
    then have "filter P xs = []" by (simp add: filter_empty_conv)
    with True Cons.prems show ?thesis by simp
  next
    case False
    with Cons show ?thesis by auto
  qed
qed

lemma filter_none: "(\<forall>b\<in>set xs. \<not> P b) \<Longrightarrow> filter P xs = []"
  by (simp add: filter_empty_conv)

lemma concat_map_if:
  "concat (map (\<lambda>p. if Q p then g p else []) ps) = concat (map g (filter Q ps))"
  by (induction ps) simp_all

section \<open>Cake: the build, router by router\<close>

lemma connect_xplus_wire: "connect_xplus c z y x = wire (xplus_job c (z, y, x))"
  by (rule ext)
     (simp add: connect_xplus_def wire_def xplus_job_def out_step_def[abs_def]
        in_step_def[abs_def] Let_def)

lemma connect_yplus_wire: "connect_yplus c z y x = wire (yplus_job c (z, y, x))"
  by (rule ext)
     (simp add: connect_yplus_def wire_def yplus_job_def out_step_def[abs_def]
        in_step_def[abs_def] Let_def)

lemma connect_vertical_wire:
  "connect_vertical c ei z = wire (down_job c (ei, z)) \<circ> wire (up_job c (ei, z))"
  by (rule ext)
     (simp add: connect_vertical_def wire_def up_job_def down_job_def out_step_def[abs_def]
        in_step_def[abs_def] Let_def)

lemma wire_apply: "wire j rs r = map_option (local_step r j) (rs r)"
  by (cases "rs r")
     (auto simp: wire_def upd_router_def local_step_def Let_def)

lemma fold_wire_apply: "fold wire js rs r = map_option (fold (local_step r) js) (rs r)"
proof (induction js arbitrary: rs)
  case Nil
  then show ?case by (simp add: option.map_ident)
next
  case (Cons j js)
  have "fold wire (j # js) rs r = map_option (fold (local_step r) js) (wire j rs r)"
    using Cons.IH[of "wire j rs"] by simp
  also have "\<dots> = map_option (fold (local_step r) (j # js)) (rs r)"
    by (simp add: wire_apply option.map_comp comp_def)
  finally show ?case .
qed

lemma xplus_pass:
  "fold (\<lambda>z. fold (\<lambda>y. fold (\<lambda>x. connect_xplus c z y x) xs) ys) zs
     = fold wire (map (xplus_job c) (List.product zs (List.product ys xs)))"
proof -
  have "fold (\<lambda>z. fold (\<lambda>y. fold (\<lambda>x. connect_xplus c z y x) xs) ys) zs
      = fold (\<lambda>z. fold (\<lambda>(y, x). wire (xplus_job c (z, y, x))) (List.product ys xs)) zs"
    by (simp add: connect_xplus_wire fold_product)
  also have "\<dots> = fold (\<lambda>(z, y, x). wire (xplus_job c (z, y, x)))
                      (List.product zs (List.product ys xs))"
    by (rule fold_product)
  also have "\<dots> = fold wire (map (xplus_job c) (List.product zs (List.product ys xs)))"
    by (simp add: fold_map comp_def case_prod_unfold)
  finally show ?thesis .
qed

lemma yplus_pass:
  "fold (\<lambda>z. fold (\<lambda>y. fold (\<lambda>x. connect_yplus c z y x) xs) ys) zs
     = fold wire (map (yplus_job c) (List.product zs (List.product ys xs)))"
proof -
  have "fold (\<lambda>z. fold (\<lambda>y. fold (\<lambda>x. connect_yplus c z y x) xs) ys) zs
      = fold (\<lambda>z. fold (\<lambda>(y, x). wire (yplus_job c (z, y, x))) (List.product ys xs)) zs"
    by (simp add: connect_yplus_wire fold_product)
  also have "\<dots> = fold (\<lambda>(z, y, x). wire (yplus_job c (z, y, x)))
                      (List.product zs (List.product ys xs))"
    by (rule fold_product)
  also have "\<dots> = fold wire (map (yplus_job c) (List.product zs (List.product ys xs)))"
    by (simp add: fold_map comp_def case_prod_unfold)
  finally show ?thesis .
qed

lemma vertical_pass:
  "fold (\<lambda>ei. fold (\<lambda>z. connect_vertical c ei z) zs) eis
     = fold wire (concat (map (\<lambda>s. [up_job c s, down_job c s]) (List.product eis zs)))"
proof -
  have "fold (\<lambda>ei. fold (\<lambda>z. connect_vertical c ei z) zs) eis
      = fold (\<lambda>(ei, z). connect_vertical c ei z) (List.product eis zs)"
    by (rule fold_product)
  also have "\<dots> = fold (\<lambda>s. fold wire [up_job c s, down_job c s]) (List.product eis zs)"
    by (rule arg_cong[where f = "\<lambda>f. fold f (List.product eis zs)"])
       (auto simp: connect_vertical_wire)
  also have "\<dots> = fold wire (concat (map (\<lambda>s. [up_job c s, down_job c s])
                                   (List.product eis zs)))"
    by (rule fold_concat_map[symmetric])
  finally show ?thesis .
qed

lemma create_router_eq: "create_router c ident rs = rs(ident \<mapsto> created_router c ident)"
  by (simp add: create_router_def created_router_def upd_router_def Let_def
      split: prod.splits)

lemma fold_create_router:
  "fold (create_router c) ids rs r = (if r \<in> set ids then Some (created_router c r) else rs r)"
  by (induction ids arbitrary: rs) (auto simp: create_router_eq)

lemma attach_node_eq: "attach_node ident rs = upd_router rs ident (attach_step ident)"
  by (rule ext)
     (simp add: attach_node_def attach_step_def[abs_def] upd_router_def Let_def
        option.map_comp comp_def)

lemma fold_attach_node:
  "distinct ids \<Longrightarrow>
   fold attach_node ids rs r = (if r \<in> set ids then map_option (attach_step r) (rs r) else rs r)"
proof (induction ids arbitrary: rs)
  case Nil
  then show ?case by simp
next
  case (Cons i ids)
  then show ?case by (auto simp: attach_node_eq upd_router_def)
qed

lemma Cake_BuildNet_router:
  assumes "0 \<le> r" "r < m_size c"
  shows "m_routers (Cake_BuildNet c) r =
           Some (attach_step r (fold (local_step r) (wiring_jobs c) (created_router c r)))"
proof -
  have mem: "r \<in> set [0..m_size c - 1]" using assms by simp
  let ?rs0 = "fold (create_router c) [0..m_size c - 1] (m_routers c)"
  have rs0: "?rs0 r = Some (created_router c r)"
    using mem by (simp only: fold_create_router if_True)
  have wired: "fold (\<lambda>ei. fold (\<lambda>z. connect_vertical c ei z) [0..m_layers c - 1])
                 [0..<length (m_elevators c)]
          (fold (\<lambda>z. fold (\<lambda>y. fold (\<lambda>x. connect_yplus c z y x) [0..m_x c - 1]) [0..m_y c - 1])
                 [0..m_layers c - 1]
          (fold (\<lambda>z. fold (\<lambda>y. fold (\<lambda>x. connect_xplus c z y x) [0..m_x c - 1]) [0..m_y c - 1])
                 [0..m_layers c - 1] ?rs0))
        = fold wire (wiring_jobs c) ?rs0"
    by (simp only: xplus_pass yplus_pass vertical_pass wiring_jobs_def layer_cells_def
        elevator_stops_def fold_append comp_def)
  have "m_routers (Cake_BuildNet c) r
          = fold attach_node [0..m_size c - 1] (fold wire (wiring_jobs c) ?rs0) r"
    by (simp only: Cake_BuildNet_def Let_def wired) simp
  also have "\<dots> = map_option (attach_step r) (fold wire (wiring_jobs c) ?rs0 r)"
    using mem by (simp only: fold_attach_node[OF distinct_upto] if_True)
  also have "\<dots> = Some (attach_step r (fold (local_step r) (wiring_jobs c) (created_router c r)))"
    by (simp only: fold_wire_apply rs0 option.map)
  finally show ?thesis .
qed

section \<open>Cake: what one router sees of the wiring\<close>

lemmas port_setter_defs =
  SetCakePortXPlus_def SetCakePortYPlus_def SetCakePortZUp_def SetCakePortZDown_def

lemma strip_inputs_in_step: "strip_inputs (in_step j R) = strip_inputs R"
  by (simp add: strip_inputs_def in_step_def AddInputChannel_def split: prod.splits)

lemma strip_inputs_out_step:
  assumes "is_port_setter (snd (snd (snd j)))"
  shows "strip_inputs (out_step j R) = out_step j (strip_inputs R)"
proof -
  obtain fr to ch s where j: "j = (fr, to, ch, s)" by (cases j) auto
  from assms j have "is_port_setter s" by simp
  then show ?thesis unfolding is_port_setter_def j
    by (auto simp: strip_inputs_def out_step_def AddOutputChannel_def OutputIndexCount_def
        port_setter_defs)
qed

lemma strip_inputs_local_step:
  assumes "is_port_setter (snd (snd (snd j)))"
  shows "strip_inputs (local_step r j R)
           = (if fst j = r then out_step j (strip_inputs R) else strip_inputs R)"
  by (simp add: local_step_def Let_def strip_inputs_in_step strip_inputs_out_step[OF assms])

lemma strip_inputs_fold:
  "\<forall>j\<in>set js. is_port_setter (snd (snd (snd j))) \<Longrightarrow>
   strip_inputs (fold (local_step r) js R)
     = fold out_step (filter (\<lambda>j. fst j = r) js) (strip_inputs R)"
proof (induction js arbitrary: R)
  case Nil
  then show ?case by simp
next
  case (Cons j js)
  from Cons.prems have s: "is_port_setter (snd (snd (snd j)))"
    and rest: "\<forall>j\<in>set js. is_port_setter (snd (snd (snd j)))" by simp_all
  have "strip_inputs (fold (local_step r) (j # js) R)
          = fold out_step (filter (\<lambda>j. fst j = r) js) (strip_inputs (local_step r j R))"
    using Cons.IH[OF rest, of "local_step r j R"] by simp
  then show ?case by (simp add: strip_inputs_local_step[OF s])
qed

lemma input_channels_out_step:
  assumes "is_port_setter (snd (snd (snd j)))"
  shows "input_channels (out_step j R) = input_channels R"
proof -
  obtain fr to ch s where j: "j = (fr, to, ch, s)" by (cases j) auto
  from assms j have "is_port_setter s" by simp
  then show ?thesis unfolding is_port_setter_def j
    by (auto simp: out_step_def AddOutputChannel_def port_setter_defs)
qed

lemma input_channels_in_step:
  "input_channels (in_step j R) = input_channels R @ [chan (fst (snd (snd j)))]"
  by (simp add: in_step_def AddInputChannel_def split: prod.splits)

lemma input_channels_fold:
  "\<forall>j\<in>set js. is_port_setter (snd (snd (snd j))) \<Longrightarrow>
   input_channels (fold (local_step r) js R)
     = input_channels R
       @ map (\<lambda>j. chan (fst (snd (snd j)))) (filter (\<lambda>j. fst (snd j) = r) js)"
proof (induction js arbitrary: R)
  case Nil
  then show ?case by simp
next
  case (Cons j js)
  from Cons.prems have s: "is_port_setter (snd (snd (snd j)))"
    and rest: "\<forall>j\<in>set js. is_port_setter (snd (snd (snd j)))" by simp_all
  have step: "input_channels (local_step r j R)
          = input_channels R @ (if fst (snd j) = r then [chan (fst (snd (snd j)))] else [])"
    by (simp add: local_step_def Let_def input_channels_in_step input_channels_out_step[OF s])
  have "input_channels (fold (local_step r) (j # js) R)
          = input_channels (local_step r j R)
            @ map (\<lambda>j. chan (fst (snd (snd j)))) (filter (\<lambda>j. fst (snd j) = r) js)"
    using Cons.IH[OF rest, of "local_step r j R"] by simp
  then show ?case by (simp add: step)
qed

lemma wiring_jobs_setters: "\<forall>j\<in>set (wiring_jobs c). is_port_setter (snd (snd (snd j)))"
  by (auto simp: wiring_jobs_def xplus_job_def yplus_job_def up_job_def down_job_def
      is_port_setter_def)

section \<open>Cake: the jobs that leave one router\<close>

lemma job_from:
  "fst (xplus_job c t) = cell_from c t" "fst (yplus_job c t) = cell_from c t"
  "fst (up_job c s) = stop_from c s" "fst (down_job c s) = stop_from c s"
  by (simp_all add: xplus_job_def yplus_job_def up_job_def down_job_def cell_from_def
      stop_from_def split: prod.splits)

lemma layer_cells_set:
  "(z, y, x) \<in> set (layer_cells c) \<longleftrightarrow>
     0 \<le> z \<and> z < m_layers c \<and> 0 \<le> y \<and> y < m_y c \<and> 0 \<le> x \<and> x < m_x c"
  by (auto simp: layer_cells_def)

lemma layer_cells_distinct: "distinct (layer_cells c)"
  by (simp add: layer_cells_def distinct_product)

lemma elevator_stops_set:
  "(ei, z) \<in> set (elevator_stops c) \<longleftrightarrow> ei < length (m_elevators c) \<and> 0 \<le> z \<and> z < m_layers c"
  by (auto simp: elevator_stops_def)

lemma elevator_stops_distinct: "distinct (elevator_stops c)"
  by (simp add: elevator_stops_def distinct_product)

lemma cells_from_router:
  assumes p: "cake_parsed c" and r: "0 \<le> r" "r < m_size c"
    and xyz: "Cake_IdToXYZ c r = (x, y, z)"
  shows "filter (\<lambda>t. cell_from c t = r) (layer_cells c) = [(z, y, x)]"
proof (rule filter_unique[OF layer_cells_distinct])
  from p r have "r < m_x c * m_y c * m_layers c" by (simp add: cake_parsed_def)
  with p r xyz have b: "0 \<le> x \<and> x < m_x c \<and> 0 \<le> y \<and> y < m_y c \<and> 0 \<le> z \<and> z < m_layers c
       \<and> Cake_NodeId c x y z = r"
    by (intro Cake_IdToXYZ_bounds) (simp_all add: cake_parsed_def)
  then show "(z, y, x) \<in> set (layer_cells c)" by (simp add: layer_cells_set)
  show "\<forall>t\<in>set (layer_cells c). (cell_from c t = r) = (t = (z, y, x))"
  proof
    fix t assume t: "t \<in> set (layer_cells c)"
    obtain z' y' x' where t': "t = (z', y', x')" by (cases t) auto
    with t have b': "0 \<le> z'" "z' < m_layers c" "0 \<le> y'" "y' < m_y c" "0 \<le> x'" "x' < m_x c"
      by (simp_all add: layer_cells_set)
    show "(cell_from c t = r) = (t = (z, y, x))"
    proof
      assume "cell_from c t = r"
      with t' b have "Cake_NodeId c x' y' z' = Cake_NodeId c x y z" by (simp add: cell_from_def)
      with b b' have "x' = x \<and> y' = y \<and> z' = z"
        by (intro Cake_NodeId_inj[where c = c]) simp_all
      with t' show "t = (z, y, x)" by simp
    next
      assume "t = (z, y, x)"
      with b show "cell_from c t = r" by (simp add: cell_from_def)
    qed
  qed
qed

lemma stops_from_router:
  assumes p: "cake_parsed c" and r: "0 \<le> r" "r < m_size c"
    and xyz: "Cake_IdToXYZ c r = (x, y, z)"
  shows "ei < length (m_elevators c) \<Longrightarrow> m_elevators c ! ei = (x, y) \<Longrightarrow>
           filter (\<lambda>s. stop_from c s = r) (elevator_stops c) = [(ei, z)]"
    and "(x, y) \<notin> set (m_elevators c) \<Longrightarrow>
           filter (\<lambda>s. stop_from c s = r) (elevator_stops c) = []"
proof -
  from p r have "r < m_x c * m_y c * m_layers c" by (simp add: cake_parsed_def)
  with p r xyz have b: "0 \<le> x \<and> x < m_x c \<and> 0 \<le> y \<and> y < m_y c \<and> 0 \<le> z \<and> z < m_layers c
       \<and> Cake_NodeId c x y z = r"
    by (intro Cake_IdToXYZ_bounds) (simp_all add: cake_parsed_def)
  from p have d: "distinct (m_elevators c)"
    and pl: "\<forall>q\<in>set (m_elevators c). in_plane (m_x c) (m_y c) q"
    by (simp_all add: cake_parsed_def)
  have hit: "m_elevators c ! ei' = (x, y) \<and> z' = z"
    if s: "(ei', z') \<in> set (elevator_stops c)" and f: "stop_from c (ei', z') = r" for ei' z'
  proof -
    from s have e: "ei' < length (m_elevators c)" and z': "0 \<le> z'" "z' < m_layers c"
      by (simp_all add: elevator_stops_set)
    from e pl have q: "in_plane (m_x c) (m_y c) (m_elevators c ! ei')" by simp
    from f b have "Cake_NodeId c (fst (m_elevators c ! ei')) (snd (m_elevators c ! ei')) z'
                     = Cake_NodeId c x y z" by (simp add: stop_from_def)
    with q z' b have "fst (m_elevators c ! ei') = x \<and> snd (m_elevators c ! ei') = y \<and> z' = z"
      by (intro Cake_NodeId_inj[where c = c]) (simp_all add: in_plane_def)
    then show ?thesis by (simp add: prod_eq_iff)
  qed
  show "filter (\<lambda>s. stop_from c s = r) (elevator_stops c) = [(ei, z)]"
    if e: "ei < length (m_elevators c)" and m: "m_elevators c ! ei = (x, y)"
  proof (rule filter_unique[OF elevator_stops_distinct])
    from e b show "(ei, z) \<in> set (elevator_stops c)" by (simp add: elevator_stops_set)
    show "\<forall>s\<in>set (elevator_stops c). (stop_from c s = r) = (s = (ei, z))"
    proof
      fix s assume s: "s \<in> set (elevator_stops c)"
      obtain ei' z' where s': "s = (ei', z')" by (cases s) auto
      show "(stop_from c s = r) = (s = (ei, z))"
      proof
        assume "stop_from c s = r"
        with hit[of ei' z'] s s' have h: "m_elevators c ! ei' = (x, y)" "z' = z" by simp_all
        from s s' have e': "ei' < length (m_elevators c)" by (simp add: elevator_stops_set)
        have "m_elevators c ! ei' = m_elevators c ! ei" using h(1) m by simp
        then have "ei' = ei" using nth_eq_iff_index_eq[OF d e' e] by simp
        with h s' show "s = (ei, z)" by simp
      next
        assume "s = (ei, z)"
        with m b show "stop_from c s = r" by (simp add: stop_from_def)
      qed
    qed
  qed
  show "filter (\<lambda>s. stop_from c s = r) (elevator_stops c) = []"
    if n: "(x, y) \<notin> set (m_elevators c)"
  proof (rule filter_none, rule ballI)
    fix s assume s: "s \<in> set (elevator_stops c)"
    obtain ei' z' where s': "s = (ei', z')" by (cases s) auto
    show "\<not> stop_from c s = r"
    proof
      assume "stop_from c s = r"
      with hit[of ei' z'] s s' have "m_elevators c ! ei' = (x, y)" by simp
      moreover from s s' have "ei' < length (m_elevators c)" by (simp add: elevator_stops_set)
      ultimately have "(x, y) \<in> set (m_elevators c)" by (metis nth_mem)
      with n show False by simp
    qed
  qed
qed

lemma jobs_from_router:
  assumes p: "cake_parsed c" and r: "0 \<le> r" "r < m_size c"
    and xyz: "Cake_IdToXYZ c r = (x, y, z)"
  shows "ei < length (m_elevators c) \<Longrightarrow> m_elevators c ! ei = (x, y) \<Longrightarrow>
           filter (\<lambda>j. fst j = r) (wiring_jobs c)
             = [xplus_job c (z, y, x), yplus_job c (z, y, x),
                up_job c (ei, z), down_job c (ei, z)]"
    and "(x, y) \<notin> set (m_elevators c) \<Longrightarrow>
           filter (\<lambda>j. fst j = r) (wiring_jobs c)
             = [xplus_job c (z, y, x), yplus_job c (z, y, x)]"
proof -
  note cells = cells_from_router[OF p r xyz]
  have xs: "filter (\<lambda>j. fst j = r) (map (xplus_job c) (layer_cells c)) = [xplus_job c (z, y, x)]"
    by (simp add: filter_map comp_def job_from cells)
  have ys: "filter (\<lambda>j. fst j = r) (map (yplus_job c) (layer_cells c)) = [yplus_job c (z, y, x)]"
    by (simp add: filter_map comp_def job_from cells)
  have vs: "filter (\<lambda>j. fst j = r)
              (concat (map (\<lambda>s. [up_job c s, down_job c s]) (elevator_stops c)))
          = concat (map (\<lambda>s. [up_job c s, down_job c s])
              (filter (\<lambda>s. stop_from c s = r) (elevator_stops c)))"
  proof -
    have pair: "filter (\<lambda>j. fst j = r) [up_job c s, down_job c s]
                  = (if stop_from c s = r then [up_job c s, down_job c s] else [])" for s
      by (simp add: job_from)
    show ?thesis
      by (simp only: filter_concat map_map comp_def pair concat_map_if)
  qed
  show "filter (\<lambda>j. fst j = r) (wiring_jobs c)
             = [xplus_job c (z, y, x), yplus_job c (z, y, x),
                up_job c (ei, z), down_job c (ei, z)]"
    if "ei < length (m_elevators c)" "m_elevators c ! ei = (x, y)"
    using stops_from_router(1)[OF p r xyz that]
    by (simp only: wiring_jobs_def filter_append xs ys vs) simp
  show "filter (\<lambda>j. fst j = r) (wiring_jobs c)
             = [xplus_job c (z, y, x), yplus_job c (z, y, x)]"
    if "(x, y) \<notin> set (m_elevators c)"
    using stops_from_router(2)[OF p r xyz that]
    by (simp only: wiring_jobs_def filter_append xs ys vs) simp
qed

section \<open>Cake: the routers of a built network\<close>

lemmas router_ops =
  NewRouter_def AddInputChannel_def AddOutputChannel_def OutputIndexCount_def
  SetCakeSizes_def SetCakeXYZ_def SetCakeElevatorTarget_def SetCakePortEject_def port_setter_defs

lemma attach_step_fields:
  "output_channels (attach_step r R) = output_channels (strip_inputs R) @ [eject r]"
  "input_channels (attach_step r R) = input_channels R @ [inject r]"
  "cake_port_eject (attach_step r R) = int (length (output_channels (strip_inputs R)))"
  "cake_port_xp (attach_step r R) = cake_port_xp (strip_inputs R)"
  "cake_port_yp (attach_step r R) = cake_port_yp (strip_inputs R)"
  "cake_port_zup (attach_step r R) = cake_port_zup (strip_inputs R)"
  "cake_port_zdn (attach_step r R) = cake_port_zdn (strip_inputs R)"
  "r_outputs (attach_step r R) = r_outputs (strip_inputs R)"
  "cake_x (attach_step r R) = cake_x (strip_inputs R)"
  "cake_y (attach_step r R) = cake_y (strip_inputs R)"
  "cake_z (attach_step r R) = cake_z (strip_inputs R)"
  by (simp_all add: attach_step_def strip_inputs_def Let_def router_ops)

lemma created_router_fields:
  assumes "Cake_IdToXYZ c r = (x, y, z)"
  shows "output_channels (strip_inputs (created_router c r)) = []"
    "input_channels (created_router c r) = []"
    "cake_port_xp (strip_inputs (created_router c r)) = -1"
    "cake_port_yp (strip_inputs (created_router c r)) = -1"
    "cake_port_zup (strip_inputs (created_router c r)) = -1"
    "cake_port_zdn (strip_inputs (created_router c r)) = -1"
    "r_outputs (strip_inputs (created_router c r))
       = (if m_elevator_index c (Cake_Key x y) \<noteq> None then 5 else 3)"
    "cake_x (strip_inputs (created_router c r)) = x"
    "cake_y (strip_inputs (created_router c r)) = y"
    "cake_z (strip_inputs (created_router c r)) = z"
  by (simp_all add: created_router_def assms strip_inputs_def Let_def router_ops)

text \<open>The outputs and the recorded ports after the X+ and the Y+ link have been added.\<close>

lemma plane_outputs:
  assumes "output_channels R = []"
  shows "output_channels (fold out_step [xplus_job c t, yplus_job c t] R)
           = [chan (Cake_InplaneChannel c (cell_from c t) 0),
              chan (Cake_InplaneChannel c (cell_from c t) 1)]"
    "cake_port_xp (fold out_step [xplus_job c t, yplus_job c t] R) = 0"
    "cake_port_yp (fold out_step [xplus_job c t, yplus_job c t] R) = 1"
    "cake_port_zup (fold out_step [xplus_job c t, yplus_job c t] R) = cake_port_zup R"
    "cake_port_zdn (fold out_step [xplus_job c t, yplus_job c t] R) = cake_port_zdn R"
    "r_outputs (fold out_step [xplus_job c t, yplus_job c t] R) = r_outputs R"
    "cake_x (fold out_step [xplus_job c t, yplus_job c t] R) = cake_x R"
    "cake_y (fold out_step [xplus_job c t, yplus_job c t] R) = cake_y R"
    "cake_z (fold out_step [xplus_job c t, yplus_job c t] R) = cake_z R"
  using assms
  by (simp_all add: xplus_job_def yplus_job_def cell_from_def out_step_def router_ops
      split: prod.splits)

lemma elevator_outputs:
  assumes "output_channels R = []"
  shows "output_channels
           (fold out_step [xplus_job c t, yplus_job c t, up_job c s, down_job c s] R)
           = [chan (Cake_InplaneChannel c (cell_from c t) 0),
              chan (Cake_InplaneChannel c (cell_from c t) 1),
              chan (Cake_UpChannel c (int (fst s)) (snd s)),
              chan (Cake_DownChannel c (int (fst s)) (snd s))]"
    "cake_port_xp (fold out_step [xplus_job c t, yplus_job c t, up_job c s, down_job c s] R) = 0"
    "cake_port_yp (fold out_step [xplus_job c t, yplus_job c t, up_job c s, down_job c s] R) = 1"
    "cake_port_zup (fold out_step [xplus_job c t, yplus_job c t, up_job c s, down_job c s] R) = 2"
    "cake_port_zdn (fold out_step [xplus_job c t, yplus_job c t, up_job c s, down_job c s] R) = 3"
    "r_outputs (fold out_step [xplus_job c t, yplus_job c t, up_job c s, down_job c s] R)
       = r_outputs R"
    "cake_x (fold out_step [xplus_job c t, yplus_job c t, up_job c s, down_job c s] R) = cake_x R"
    "cake_y (fold out_step [xplus_job c t, yplus_job c t, up_job c s, down_job c s] R) = cake_y R"
    "cake_z (fold out_step [xplus_job c t, yplus_job c t, up_job c s, down_job c s] R) = cake_z R"
  using assms
  by (simp_all add: xplus_job_def yplus_job_def up_job_def down_job_def cell_from_def
      out_step_def router_ops split: prod.splits)


lemma Cake_router_summary:
  assumes p: "cake_parsed c" and r: "0 \<le> r" "r < m_size c"
    and xyz: "Cake_IdToXYZ c r = (x, y, z)"
  shows "\<exists>R. m_routers (Cake_BuildNet c) r = Some R
     \<and> cake_x R = x \<and> cake_y R = y \<and> cake_z R = z
     \<and> r_outputs R = (if m_elevator_index c (Cake_Key x y) \<noteq> None then 5 else 3)
     \<and> input_channels R
         = map (\<lambda>j. chan (fst (snd (snd j)))) (filter (\<lambda>j. fst (snd j) = r) (wiring_jobs c))
           @ [inject r]
     \<and> ((x, y) \<notin> set (m_elevators c) \<longrightarrow>
          output_channels R
            = [chan (Cake_InplaneChannel c r 0), chan (Cake_InplaneChannel c r 1), eject r]
          \<and> router_ports R = (0, 1, -1, -1, 2))
     \<and> (\<forall>ei. ei < length (m_elevators c) \<and> m_elevators c ! ei = (x, y) \<longrightarrow>
          output_channels R
            = [chan (Cake_InplaneChannel c r 0), chan (Cake_InplaneChannel c r 1),
               chan (Cake_UpChannel c (int ei) z), chan (Cake_DownChannel c (int ei) z), eject r]
          \<and> router_ports R = (0, 1, 2, 3, 4))"
proof -
  define Rw where "Rw = fold (local_step r) (wiring_jobs c) (created_router c r)"
  define R0 where "R0 = strip_inputs (created_router c r)"
  from p r have "r < m_x c * m_y c * m_layers c" by (simp add: cake_parsed_def)
  with p r xyz have "Cake_NodeId c x y z = r"
    using Cake_IdToXYZ_bounds[of c r x y z] by (simp add: cake_parsed_def)
  then have cell: "cell_from c (z, y, x) = r" by (simp add: cell_from_def)
  note c0 = created_router_fields[OF xyz, folded R0_def]
  have built: "m_routers (Cake_BuildNet c) r = Some (attach_step r Rw)"
    unfolding Rw_def using r by (rule Cake_BuildNet_router)
  have outs: "strip_inputs Rw = fold out_step (filter (\<lambda>j. fst j = r) (wiring_jobs c)) R0"
    unfolding Rw_def R0_def by (rule strip_inputs_fold[OF wiring_jobs_setters])
  have ins: "input_channels Rw
      = map (\<lambda>j. chan (fst (snd (snd j)))) (filter (\<lambda>j. fst (snd j) = r) (wiring_jobs c))"
    unfolding Rw_def
    by (simp add: input_channels_fold[OF wiring_jobs_setters] created_router_fields[OF xyz])
  have plain: "output_channels (attach_step r Rw)
            = [chan (Cake_InplaneChannel c r 0), chan (Cake_InplaneChannel c r 1), eject r]
          \<and> router_ports (attach_step r Rw) = (0, 1, -1, -1, 2)
          \<and> cake_x (attach_step r Rw) = x \<and> cake_y (attach_step r Rw) = y
          \<and> cake_z (attach_step r Rw) = z
          \<and> r_outputs (attach_step r Rw)
              = (if m_elevator_index c (Cake_Key x y) \<noteq> None then 5 else 3)"
    if n: "(x, y) \<notin> set (m_elevators c)"
  proof -
    have h: "strip_inputs Rw = fold out_step [xplus_job c (z, y, x), yplus_job c (z, y, x)] R0"
      by (simp only: outs jobs_from_router(2)[OF p r xyz n])
    note po = plane_outputs[OF c0(1), where c = c and t = "(z, y, x)", unfolded cell, folded h]
    show ?thesis
      by (simp add: attach_step_fields router_ports_def po c0)
  qed
  have elev: "output_channels (attach_step r Rw)
            = [chan (Cake_InplaneChannel c r 0), chan (Cake_InplaneChannel c r 1),
               chan (Cake_UpChannel c (int ei) z), chan (Cake_DownChannel c (int ei) z), eject r]
          \<and> router_ports (attach_step r Rw) = (0, 1, 2, 3, 4)
          \<and> cake_x (attach_step r Rw) = x \<and> cake_y (attach_step r Rw) = y
          \<and> cake_z (attach_step r Rw) = z
          \<and> r_outputs (attach_step r Rw)
              = (if m_elevator_index c (Cake_Key x y) \<noteq> None then 5 else 3)"
    if e: "ei < length (m_elevators c)" "m_elevators c ! ei = (x, y)" for ei
  proof -
    have h: "strip_inputs Rw = fold out_step [xplus_job c (z, y, x), yplus_job c (z, y, x),
                                             up_job c (ei, z), down_job c (ei, z)] R0"
      by (simp only: outs jobs_from_router(1)[OF p r xyz e])
    note eo = elevator_outputs[OF c0(1), where c = c and t = "(z, y, x)" and s = "(ei, z)",
        unfolded cell, folded h]
    show ?thesis
      by (simp add: attach_step_fields router_ports_def eo c0)
  qed
  have meta: "cake_x (attach_step r Rw) = x \<and> cake_y (attach_step r Rw) = y
          \<and> cake_z (attach_step r Rw) = z
          \<and> r_outputs (attach_step r Rw)
              = (if m_elevator_index c (Cake_Key x y) \<noteq> None then 5 else 3)"
  proof (cases "(x, y) \<in> set (m_elevators c)")
    case True
    then obtain ei where "ei < length (m_elevators c)" "m_elevators c ! ei = (x, y)"
      by (auto simp: in_set_conv_nth)
    from elev[OF this] show ?thesis by simp
  next
    case False
    from plain[OF this] show ?thesis by simp
  qed
  have "input_channels (attach_step r Rw)
      = map (\<lambda>j. chan (fst (snd (snd j)))) (filter (\<lambda>j. fst (snd j) = r) (wiring_jobs c))
        @ [inject r]"
    by (simp add: attach_step_fields ins)
  with built meta plain elev show ?thesis by blast
qed

lemma Cake_BuildNet_numbering:
  "Cake_IdToXYZ (Cake_BuildNet c) = Cake_IdToXYZ c"
  "Cake_NodeId (Cake_BuildNet c) = Cake_NodeId c"
  "Cake_InplaneChannel (Cake_BuildNet c) = Cake_InplaneChannel c"
  "Cake_UpChannel (Cake_BuildNet c) = Cake_UpChannel c"
  "Cake_DownChannel (Cake_BuildNet c) = Cake_DownChannel c"
  by (intro ext, simp add: Cake_IdToXYZ_def Cake_NodeId_def Cake_InplaneChannel_def
      Cake_UpChannel_def Cake_DownChannel_def Cake_BuildNet_fields)+

text \<open>
  C3. In every constructed Cake, every router \<open>r\<close> below \<open>_size\<close> carries the
  coordinates of its id, and its recorded port indices are \<open>xp = 0\<close>, \<open>yp = 1\<close>,
  \<open>zup = 2\<close>, \<open>zdn = 3\<close>, \<open>eject = 4\<close> if its \<open>(x, y)\<close> is in the elevator list, and
  \<open>xp = 0\<close>, \<open>yp = 1\<close>, \<open>eject = 2\<close>, \<open>zup = zdn = -1\<close> if it is not.
\<close>

theorem Cake_port_indices:
  assumes "Cake config g = Inr (c, g')" and "0 \<le> r" and "r < m_size c"
  shows "\<exists>R. m_routers c r = Some R
     \<and> (cake_x R, cake_y R, cake_z R) = Cake_IdToXYZ c r
     \<and> (if (cake_x R, cake_y R) \<in> set (m_elevators c)
        then cake_port_xp R = 0 \<and> cake_port_yp R = 1 \<and> cake_port_zup R = 2
             \<and> cake_port_zdn R = 3 \<and> cake_port_eject R = 4
        else cake_port_xp R = 0 \<and> cake_port_yp R = 1 \<and> cake_port_eject R = 2
             \<and> cake_port_zup R = -1 \<and> cake_port_zdn R = -1)"
proof -
  from assms(1) obtain c2 where b: "c = Cake_BuildNet c2" and p: "cake_parsed c2"
    by (rule Cake_Inr_parsed)
  obtain x y z where xyz: "Cake_IdToXYZ c2 r = (x, y, z)" by (cases "Cake_IdToXYZ c2 r") auto
  from assms(3) b have r: "r < m_size c2" by (simp add: Cake_BuildNet_fields)
  from Cake_router_summary[OF p assms(2) r xyz] obtain R where
    R: "m_routers (Cake_BuildNet c2) r = Some R" "cake_x R = x" "cake_y R = y" "cake_z R = z"
    and plain: "(x, y) \<notin> set (m_elevators c2) \<longrightarrow> router_ports R = (0, 1, -1, -1, 2)"
    and elev: "\<forall>ei. ei < length (m_elevators c2) \<and> m_elevators c2 ! ei = (x, y) \<longrightarrow>
                 router_ports R = (0, 1, 2, 3, 4)"
    by blast
  have "router_ports R = (0, 1, 2, 3, 4)" if "(x, y) \<in> set (m_elevators c2)"
  proof -
    from that obtain ei where "ei < length (m_elevators c2)" "m_elevators c2 ! ei = (x, y)"
      by (auto simp: in_set_conv_nth)
    with elev show ?thesis by blast
  qed
  with plain R xyz b show ?thesis
    by (auto simp: router_ports_def Cake_BuildNet_fields Cake_BuildNet_numbering)
qed


lemma Cake_3x3x2_Inr:
  "Cake config_cake_3x3x2 initial_globals
     = Inr (fst (projr (Cake config_cake_3x3x2 initial_globals)),
            snd (projr (Cake config_cake_3x3x2 initial_globals)))"
  by (simp add: Cake_3x3x2_built)

lemma Cake_3x3x2_facts:
  "\<not> isl (Cake config_cake_3x3x2 initial_globals)"
  "m_size (fst (projr (Cake config_cake_3x3x2 initial_globals))) = 18"
  "m_x (fst (projr (Cake config_cake_3x3x2 initial_globals))) = 3"
  "m_y (fst (projr (Cake config_cake_3x3x2 initial_globals))) = 3"
  "m_layers (fst (projr (Cake config_cake_3x3x2 initial_globals))) = 2"
  "m_channels (fst (projr (Cake config_cake_3x3x2 initial_globals))) = 40"
  "m_inplane_channels (fst (projr (Cake config_cake_3x3x2 initial_globals))) = 36"
  "m_elevators (fst (projr (Cake config_cake_3x3x2 initial_globals))) = [(1, 1)]"
  by (simp_all add: Cake_3x3x2_built Cake_BuildNet_fields)

lemma Cake_3x3x2_coords:
  "Cake_IdToXYZ (fst (projr (Cake config_cake_3x3x2 initial_globals))) 4 = (1, 1, 0)"
  "Cake_IdToXYZ (fst (projr (Cake config_cake_3x3x2 initial_globals))) 0 = (0, 0, 0)"
  by (simp_all add: Cake_IdToXYZ_def Cake_3x3x2_facts Let_def
      signed_divide_int_def signed_modulo_int_def)

theorem Cake_port_indices_witness:
  "\<not> isl (Cake config_cake_3x3x2 initial_globals)
   \<and> (0::int) \<le> 4 \<and> 4 < m_size (fst (projr (Cake config_cake_3x3x2 initial_globals)))
   \<and> (1, 1) \<in> set (m_elevators (fst (projr (Cake config_cake_3x3x2 initial_globals))))
   \<and> (\<exists>R. m_routers (fst (projr (Cake config_cake_3x3x2 initial_globals))) 4 = Some R
          \<and> (cake_x R, cake_y R, cake_z R) = (1, 1, 0)
          \<and> router_ports R = (0, 1, 2, 3, 4))
   \<and> (0::int) \<le> 0 \<and> 0 < m_size (fst (projr (Cake config_cake_3x3x2 initial_globals)))
   \<and> (0, 0) \<notin> set (m_elevators (fst (projr (Cake config_cake_3x3x2 initial_globals))))
   \<and> (\<exists>R. m_routers (fst (projr (Cake config_cake_3x3x2 initial_globals))) 0 = Some R
          \<and> (cake_x R, cake_y R, cake_z R) = (0, 0, 0)
          \<and> router_ports R = (0, 1, -1, -1, 2))"
proof -
  let ?C = "fst (projr (Cake config_cake_3x3x2 initial_globals))"
  note f = Cake_3x3x2_facts
  have r4: "(0::int) \<le> 4" "4 < m_size ?C" and r0: "(0::int) \<le> 0" "0 < m_size ?C"
    by (simp_all add: f)
  from Cake_port_indices[OF Cake_3x3x2_Inr r4] Cake_3x3x2_coords(1)
  have 4: "\<exists>R. m_routers ?C 4 = Some R \<and> (cake_x R, cake_y R, cake_z R) = (1, 1, 0)
          \<and> router_ports R = (0, 1, 2, 3, 4)"
    by (auto simp: f router_ports_def)
  from Cake_port_indices[OF Cake_3x3x2_Inr r0] Cake_3x3x2_coords(2)
  have 0: "\<exists>R. m_routers ?C 0 = Some R \<and> (cake_x R, cake_y R, cake_z R) = (0, 0, 0)
          \<and> router_ports R = (0, 1, -1, -1, 2)"
    by (auto simp: f router_ports_def)
  from 4 0 r4 r0 f(1) show ?thesis by (simp add: f)
qed

section \<open>Cake: where a channel ends\<close>

lemma wiring_jobs_cases:
  assumes "j \<in> set (wiring_jobs c)"
  obtains (xplus) t where "t \<in> set (layer_cells c)" "j = xplus_job c t"
  | (yplus) t where "t \<in> set (layer_cells c)" "j = yplus_job c t"
  | (up) s where "s \<in> set (elevator_stops c)" "j = up_job c s"
  | (down) s where "s \<in> set (elevator_stops c)" "j = down_job c s"
  using assms by (auto simp: wiring_jobs_def)

lemma wiring_jobs_intros:
  "t \<in> set (layer_cells c) \<Longrightarrow> xplus_job c t \<in> set (wiring_jobs c)"
  "t \<in> set (layer_cells c) \<Longrightarrow> yplus_job c t \<in> set (wiring_jobs c)"
  "s \<in> set (elevator_stops c) \<Longrightarrow> up_job c s \<in> set (wiring_jobs c)"
  "s \<in> set (elevator_stops c) \<Longrightarrow> down_job c s \<in> set (wiring_jobs c)"
  by (auto simp: wiring_jobs_def)

lemma cell_from_bounds:
  assumes "cake_parsed c" "t \<in> set (layer_cells c)"
  shows "0 \<le> cell_from c t \<and> cell_from c t < m_size c"
proof -
  obtain z y x where t: "t = (z, y, x)" by (cases t) auto
  with assms(2) have "0 \<le> x" "x < m_x c" "0 \<le> y" "y < m_y c" "0 \<le> z" "z < m_layers c"
    by (simp_all add: layer_cells_set)
  from Cake_NodeId_bounds[OF this] assms(1) t show ?thesis
    by (simp add: cell_from_def cake_parsed_def)
qed

lemma cell_from_inj:
  assumes "t \<in> set (layer_cells c)" "t' \<in> set (layer_cells c)"
    and "cell_from c t = cell_from c t'"
  shows "t = t'"
proof -
  obtain z y x where t: "t = (z, y, x)" by (cases t) auto
  obtain z' y' x' where t': "t' = (z', y', x')" by (cases t') auto
  from assms(1) t have b: "0 \<le> x" "x < m_x c" "0 \<le> y" "y < m_y c" "0 \<le> z"
    by (simp_all add: layer_cells_set)
  from assms(2) t' have b': "0 \<le> x'" "x' < m_x c" "0 \<le> y'" "y' < m_y c" "0 \<le> z'"
    by (simp_all add: layer_cells_set)
  from assms(3) t t' have "Cake_NodeId c x y z = Cake_NodeId c x' y' z'"
    by (simp add: cell_from_def)
  from Cake_NodeId_inj[OF b b' this] t t' show ?thesis by simp
qed

lemma stop_code_inj:
  assumes "(ei, z) \<in> set (elevator_stops c)" "(ei', z') \<in> set (elevator_stops c)"
    and "int ei * m_layers c + z = int ei' * m_layers c + z'"
  shows "ei = ei' \<and> z = z'"
proof -
  from assms(1) have z: "0 \<le> z" "z < m_layers c" by (simp_all add: elevator_stops_set)
  from assms(2) have z': "0 \<le> z'" "z' < m_layers c" by (simp_all add: elevator_stops_set)
  have "int ei = (int ei * m_layers c + z) div m_layers c"
    using div_mod_mixed(1)[OF z] by simp
  also have "\<dots> = (int ei' * m_layers c + z') div m_layers c" by (simp only: assms(3))
  also have "\<dots> = int ei'" using div_mod_mixed(1)[OF z'] by simp
  finally have e: "ei = ei'" by simp
  with assms(3) show ?thesis by simp
qed

lemma job_chan_simps:
  "job_chan (xplus_job c t) = 2 * cell_from c t"
  "job_chan (yplus_job c t) = 2 * cell_from c t + 1"
  "job_chan (up_job c (ei, z)) = m_inplane_channels c + 2 * (int ei * m_layers c + z)"
  "job_chan (down_job c (ei, z)) = m_inplane_channels c + 2 * (int ei * m_layers c + z) + 1"
  by (simp_all add: job_chan_def xplus_job_def yplus_job_def up_job_def down_job_def
      cell_from_def Cake_InplaneChannel_def Cake_UpChannel_def Cake_DownChannel_def
      split: prod.splits)

lemma stop_code_nonneg:
  assumes "cake_parsed c" "(ei, z) \<in> set (elevator_stops c)"
  shows "0 \<le> int ei * m_layers c + z"
proof -
  from assms(2) have "0 \<le> z" by (simp add: elevator_stops_set)
  moreover from assms(1) have "0 \<le> int ei * m_layers c" by (simp add: cake_parsed_def)
  ultimately show ?thesis by simp
qed

text \<open>No two wiring jobs use the same channel.\<close>

lemma job_chan_inj:
  assumes p: "cake_parsed c"
    and j: "j \<in> set (wiring_jobs c)" and j': "j' \<in> set (wiring_jobs c)"
    and eq: "job_chan j = job_chan j'"
  shows "j = j'"
proof -
  from p have ip: "m_inplane_channels c = 2 * m_size c" by (simp add: cake_parsed_def)
  note cb = cell_from_bounds[OF p]
  note sn = stop_code_nonneg[OF p]
  from j show ?thesis
  proof (cases rule: wiring_jobs_cases)
    case (xplus t)
    from j' show ?thesis
    proof (cases rule: wiring_jobs_cases)
      case (xplus t')
      with \<open>j = xplus_job c t\<close> eq have "cell_from c t = cell_from c t'"
        by (simp add: job_chan_simps)
      with cell_from_inj[OF \<open>t \<in> set (layer_cells c)\<close> xplus(1)] xplus(2) \<open>j = xplus_job c t\<close>
      show ?thesis by simp
    next
      case (yplus t')
      with \<open>j = xplus_job c t\<close> eq have "2 * cell_from c t = 2 * cell_from c t' + 1"
        by (simp add: job_chan_simps)
      then show ?thesis by presburger
    next
      case (up s)
      obtain ei z where s: "s = (ei, z)" by (cases s) auto
      with up \<open>j = xplus_job c t\<close> eq ip
      have "2 * cell_from c t = 2 * m_size c + 2 * (int ei * m_layers c + z)"
        by (simp add: job_chan_simps)
      with cb[OF \<open>t \<in> set (layer_cells c)\<close>] sn[of ei z] up(1) s show ?thesis by simp
    next
      case (down s)
      obtain ei z where s: "s = (ei, z)" by (cases s) auto
      with down \<open>j = xplus_job c t\<close> eq ip
      have "2 * cell_from c t = 2 * m_size c + 2 * (int ei * m_layers c + z) + 1"
        by (simp add: job_chan_simps)
      then show ?thesis by presburger
    qed
  next
    case (yplus t)
    from j' show ?thesis
    proof (cases rule: wiring_jobs_cases)
      case (xplus t')
      with \<open>j = yplus_job c t\<close> eq have "2 * cell_from c t + 1 = 2 * cell_from c t'"
        by (simp add: job_chan_simps)
      then show ?thesis by presburger
    next
      case (yplus t')
      with \<open>j = yplus_job c t\<close> eq have "cell_from c t = cell_from c t'"
        by (simp add: job_chan_simps)
      with cell_from_inj[OF \<open>t \<in> set (layer_cells c)\<close> yplus(1)] yplus(2) \<open>j = yplus_job c t\<close>
      show ?thesis by simp
    next
      case (up s)
      obtain ei z where s: "s = (ei, z)" by (cases s) auto
      with up \<open>j = yplus_job c t\<close> eq ip
      have "2 * cell_from c t + 1 = 2 * m_size c + 2 * (int ei * m_layers c + z)"
        by (simp add: job_chan_simps)
      then show ?thesis by presburger
    next
      case (down s)
      obtain ei z where s: "s = (ei, z)" by (cases s) auto
      with down \<open>j = yplus_job c t\<close> eq ip
      have "2 * cell_from c t + 1 = 2 * m_size c + 2 * (int ei * m_layers c + z) + 1"
        by (simp add: job_chan_simps)
      with cb[OF \<open>t \<in> set (layer_cells c)\<close>] sn[of ei z] down(1) s show ?thesis by simp
    qed
  next
    case (up s)
    obtain ei z where s: "s = (ei, z)" by (cases s) auto
    from j' show ?thesis
    proof (cases rule: wiring_jobs_cases)
      case (xplus t')
      with up s eq ip
      have "2 * m_size c + 2 * (int ei * m_layers c + z) = 2 * cell_from c t'"
        by (simp add: job_chan_simps)
      with cb[OF xplus(1)] sn[of ei z] up(1) s show ?thesis by simp
    next
      case (yplus t')
      with up s eq ip
      have "2 * m_size c + 2 * (int ei * m_layers c + z) = 2 * cell_from c t' + 1"
        by (simp add: job_chan_simps)
      then show ?thesis by presburger
    next
      case up': (up s')
      obtain ei' z' where s': "s' = (ei', z')" by (cases s') auto
      with up s up' eq have "int ei * m_layers c + z = int ei' * m_layers c + z'"
        by (simp add: job_chan_simps)
      with stop_code_inj[of ei z c ei' z'] up(1) up'(1) s s' have "s = s'" by simp
      with up up' show ?thesis by simp
    next
      case (down s')
      obtain ei' z' where s': "s' = (ei', z')" by (cases s') auto
      with up s down eq
      have "2 * (int ei * m_layers c + z) = 2 * (int ei' * m_layers c + z') + 1"
        by (simp add: job_chan_simps)
      then show ?thesis by presburger
    qed
  next
    case (down s)
    obtain ei z where s: "s = (ei, z)" by (cases s) auto
    from j' show ?thesis
    proof (cases rule: wiring_jobs_cases)
      case (xplus t')
      with down s eq ip
      have "2 * m_size c + 2 * (int ei * m_layers c + z) + 1 = 2 * cell_from c t'"
        by (simp add: job_chan_simps)
      then show ?thesis by presburger
    next
      case (yplus t')
      with down s eq ip
      have "2 * m_size c + 2 * (int ei * m_layers c + z) + 1 = 2 * cell_from c t' + 1"
        by (simp add: job_chan_simps)
      with cb[OF yplus(1)] sn[of ei z] down(1) s show ?thesis by simp
    next
      case (up s')
      obtain ei' z' where s': "s' = (ei', z')" by (cases s') auto
      with down s up eq
      have "2 * (int ei * m_layers c + z) + 1 = 2 * (int ei' * m_layers c + z')"
        by (simp add: job_chan_simps)
      then show ?thesis by presburger
    next
      case down': (down s')
      obtain ei' z' where s': "s' = (ei', z')" by (cases s') auto
      with down s down' eq have "int ei * m_layers c + z = int ei' * m_layers c + z'"
        by (simp add: job_chan_simps)
      with stop_code_inj[of ei z c ei' z'] down(1) down'(1) s s' have "s = s'" by simp
      with down down' show ?thesis by simp
    qed
  qed
qed

lemma wrap_coordinate:
  assumes "0 \<le> v" "0 < (n::int)"
  shows "v smod n = v mod n" "0 \<le> v mod n" "v mod n < n"
  using assms by (simp_all add: smod_nonneg)

lemma job_to_cells:
  assumes p: "cake_parsed c" and t: "(z, y, x) \<in> set (layer_cells c)"
  shows "job_to (xplus_job c (z, y, x)) = Cake_NodeId c ((x + 1) mod m_x c) y z"
    "job_to (yplus_job c (z, y, x)) = Cake_NodeId c x ((y + 1) mod m_y c) z"
    "0 \<le> job_to (xplus_job c (z, y, x))" "job_to (xplus_job c (z, y, x)) < m_size c"
    "0 \<le> job_to (yplus_job c (z, y, x))" "job_to (yplus_job c (z, y, x)) < m_size c"
proof -
  from t have b: "0 \<le> x" "x < m_x c" "0 \<le> y" "y < m_y c" "0 \<le> z" "z < m_layers c"
    by (simp_all add: layer_cells_set)
  from p have X: "0 < m_x c" and Y: "0 < m_y c"
    and size: "m_size c = m_x c * m_y c * m_layers c"
    by (simp_all add: cake_parsed_def)
  from b have x1: "0 \<le> x + 1" and y1: "0 \<le> y + 1" by simp_all
  note wx = wrap_coordinate[OF x1 X] and wy = wrap_coordinate[OF y1 Y]
  show tx: "job_to (xplus_job c (z, y, x)) = Cake_NodeId c ((x + 1) mod m_x c) y z"
    by (simp add: job_to_def xplus_job_def wx(1))
  show ty: "job_to (yplus_job c (z, y, x)) = Cake_NodeId c x ((y + 1) mod m_y c) z"
    by (simp add: job_to_def yplus_job_def wy(1))
  from Cake_NodeId_bounds[OF wx(2,3) b(3-6)] size
  show "0 \<le> job_to (xplus_job c (z, y, x))" "job_to (xplus_job c (z, y, x)) < m_size c"
    by (simp_all only: tx)
  from Cake_NodeId_bounds[OF b(1,2) wy(2,3) b(5,6)] size
  show "0 \<le> job_to (yplus_job c (z, y, x))" "job_to (yplus_job c (z, y, x)) < m_size c"
    by (simp_all only: ty)
qed

lemma job_to_stops:
  assumes p: "cake_parsed c" and s: "(ei, z) \<in> set (elevator_stops c)"
    and e: "m_elevators c ! ei = (x, y)"
  shows "job_to (up_job c (ei, z)) = Cake_NodeId c x y ((z + 1) mod m_layers c)"
    "job_to (down_job c (ei, z)) = Cake_NodeId c x y ((z - 1 + m_layers c) mod m_layers c)"
    "0 \<le> job_to (up_job c (ei, z))" "job_to (up_job c (ei, z)) < m_size c"
    "0 \<le> job_to (down_job c (ei, z))" "job_to (down_job c (ei, z)) < m_size c"
proof -
  from s have ei: "ei < length (m_elevators c)" and z: "0 \<le> z" "z < m_layers c"
    by (simp_all add: elevator_stops_set)
  from p have L: "0 < m_layers c" and size: "m_size c = m_x c * m_y c * m_layers c"
    and pl: "\<forall>q\<in>set (m_elevators c). in_plane (m_x c) (m_y c) q"
    by (simp_all add: cake_parsed_def)
  from pl ei e have b: "0 \<le> x" "x < m_x c" "0 \<le> y" "y < m_y c"
    by (auto simp: in_plane_def dest!: bspec[OF _ nth_mem])
  from z have u: "0 \<le> z + 1" by simp
  from z L have d: "0 \<le> z - 1 + m_layers c" by simp
  note wu = wrap_coordinate[OF u L] and wd = wrap_coordinate[OF d L]
  show tu: "job_to (up_job c (ei, z)) = Cake_NodeId c x y ((z + 1) mod m_layers c)"
    by (simp add: job_to_def up_job_def e wu(1))
  show td: "job_to (down_job c (ei, z))
              = Cake_NodeId c x y ((z - 1 + m_layers c) mod m_layers c)"
    by (simp add: job_to_def down_job_def e wd(1))
  from Cake_NodeId_bounds[OF b wu(2,3)] size
  show "0 \<le> job_to (up_job c (ei, z))" "job_to (up_job c (ei, z)) < m_size c"
    by (simp_all only: tu)
  from Cake_NodeId_bounds[OF b wd(2,3)] size
  show "0 \<le> job_to (down_job c (ei, z))" "job_to (down_job c (ei, z)) < m_size c"
    by (simp_all only: td)
qed

text \<open>
  The channel of a wiring job is an input of the router the job names as its
  destination, and of no other router.
\<close>

lemma chan_mem_inputs:
  "chan k \<in> set (map (\<lambda>j. chan (g j)) js @ [inject r]) \<longleftrightarrow> (\<exists>j\<in>set js. g j = k)"
  by (induction js) auto

lemma sinks_of_job:
  assumes p: "cake_parsed c" and j: "j \<in> set (wiring_jobs c)"
    and rng: "0 \<le> job_to j" "job_to j < m_size c"
  shows "sinks (Cake_BuildNet c) (chan (job_chan j)) = [job_to j]"
proof -
  define P where "P = (\<lambda>r. case m_routers (Cake_BuildNet c) r of None \<Rightarrow> False
                 | Some R \<Rightarrow> chan (job_chan j) \<in> set (input_channels R))"
  have "filter P [0..m_size c - 1] = [job_to j]"
  proof (rule filter_unique[OF distinct_upto])
    from rng show "job_to j \<in> set [0..m_size c - 1]" by simp
    show "\<forall>r\<in>set [0..m_size c - 1]. P r = (r = job_to j)"
    proof
      fix r assume "r \<in> set [0..m_size c - 1]"
      then have r: "0 \<le> r" "r < m_size c" by simp_all
      obtain x y z where xyz: "Cake_IdToXYZ c r = (x, y, z)"
        by (cases "Cake_IdToXYZ c r") auto
      from Cake_router_summary[OF p r xyz] obtain R where
        R: "m_routers (Cake_BuildNet c) r = Some R"
        and ins: "input_channels R
           = map (\<lambda>j. chan (fst (snd (snd j)))) (filter (\<lambda>j. fst (snd j) = r) (wiring_jobs c))
             @ [inject r]"
        by blast
      have "P r \<longleftrightarrow> chan (job_chan j) \<in> set (input_channels R)"
        by (simp only: P_def R option.case)
      also have "\<dots> \<longleftrightarrow>
          (\<exists>j'\<in>set (filter (\<lambda>j. fst (snd j) = r) (wiring_jobs c)).
             fst (snd (snd j')) = job_chan j)"
        by (simp only: ins chan_mem_inputs)
      also have "\<dots> \<longleftrightarrow> r = job_to j"
      proof
        assume "\<exists>j'\<in>set (filter (\<lambda>j. fst (snd j) = r) (wiring_jobs c)).
                  fst (snd (snd j')) = job_chan j"
        then obtain j' where j': "j' \<in> set (wiring_jobs c)" "job_to j' = r"
          "job_chan j' = job_chan j" by (auto simp: job_to_def job_chan_def)
        from job_chan_inj[OF p j'(1) j j'(3)] have "j' = j" .
        with j'(2) show "r = job_to j" by (simp only:)
      next
        assume "r = job_to j"
        with j have "j \<in> set (filter (\<lambda>j. fst (snd j) = r) (wiring_jobs c))"
          by (simp add: job_to_def)
        moreover have "fst (snd (snd j)) = job_chan j" by (simp add: job_chan_def)
        ultimately show "\<exists>j'\<in>set (filter (\<lambda>j. fst (snd j) = r) (wiring_jobs c)).
                  fst (snd (snd j')) = job_chan j" by (rule bexI[rotated])
      qed
      finally show "P r = (r = job_to j)" .
    qed
  qed
  then show ?thesis by (simp add: sinks_def Cake_BuildNet_fields P_def)
qed

lemma GetOutputChannel_nth:
  "0 \<le> i \<Longrightarrow> i < r_outputs R \<Longrightarrow> nat i < length (output_channels R) \<Longrightarrow>
     GetOutputChannel R i = Some (output_channels R ! nat i)"
  by (simp add: GetOutputChannel_def)

text \<open>What the recorded ports of one router of a built Cake lead to.\<close>

lemma Cake_router_slots:
  assumes p: "cake_parsed c" and r: "0 \<le> r" "r < m_size c"
    and xyz: "Cake_IdToXYZ c r = (x, y, z)"
  shows "\<exists>R. m_routers (Cake_BuildNet c) r = Some R
     \<and> cake_x R = x \<and> cake_y R = y \<and> cake_z R = z
     \<and> GetOutputChannel R (cake_port_xp R) = Some (chan (Cake_InplaneChannel c r 0))
     \<and> sinks (Cake_BuildNet c) (chan (Cake_InplaneChannel c r 0))
         = [Cake_NodeId c ((x + 1) mod m_x c) y z]
     \<and> GetOutputChannel R (cake_port_yp R) = Some (chan (Cake_InplaneChannel c r 1))
     \<and> sinks (Cake_BuildNet c) (chan (Cake_InplaneChannel c r 1))
         = [Cake_NodeId c x ((y + 1) mod m_y c) z]
     \<and> GetOutputChannel R (cake_port_eject R) = Some (eject r)
     \<and> ((x, y) \<notin> set (m_elevators c) \<longrightarrow> cake_port_zup R = -1 \<and> cake_port_zdn R = -1)
     \<and> (\<forall>ei. ei < length (m_elevators c) \<and> m_elevators c ! ei = (x, y) \<longrightarrow>
          GetOutputChannel R (cake_port_zup R) = Some (chan (Cake_UpChannel c (int ei) z))
          \<and> sinks (Cake_BuildNet c) (chan (Cake_UpChannel c (int ei) z))
              = [Cake_NodeId c x y ((z + 1) mod m_layers c)]
          \<and> GetOutputChannel R (cake_port_zdn R) = Some (chan (Cake_DownChannel c (int ei) z))
          \<and> sinks (Cake_BuildNet c) (chan (Cake_DownChannel c (int ei) z))
              = [Cake_NodeId c x y ((z - 1 + m_layers c) mod m_layers c)])"
proof -
  from p r have "r < m_x c * m_y c * m_layers c" by (simp add: cake_parsed_def)
  with p r xyz have b: "0 \<le> x \<and> x < m_x c \<and> 0 \<le> y \<and> y < m_y c \<and> 0 \<le> z \<and> z < m_layers c
       \<and> Cake_NodeId c x y z = r"
    using Cake_IdToXYZ_bounds[of c r x y z] by (simp add: cake_parsed_def)
  then have cell: "(z, y, x) \<in> set (layer_cells c)" and cf: "cell_from c (z, y, x) = r"
    by (simp_all add: layer_cells_set cell_from_def)
  note tc = job_to_cells[OF p cell]
  have chx: "job_chan (xplus_job c (z, y, x)) = Cake_InplaneChannel c r 0"
    and chy: "job_chan (yplus_job c (z, y, x)) = Cake_InplaneChannel c r 1"
    by (simp_all add: job_chan_simps cf Cake_InplaneChannel_def)
  have sx: "sinks (Cake_BuildNet c) (chan (Cake_InplaneChannel c r 0))
         = [Cake_NodeId c ((x + 1) mod m_x c) y z]"
    using sinks_of_job[OF p wiring_jobs_intros(1)[OF cell] tc(3,4)]
    by (simp only: chx tc(1))
  have sy: "sinks (Cake_BuildNet c) (chan (Cake_InplaneChannel c r 1))
         = [Cake_NodeId c x ((y + 1) mod m_y c) z]"
    using sinks_of_job[OF p wiring_jobs_intros(2)[OF cell] tc(5,6)]
    by (simp only: chy tc(2))
  from Cake_router_summary[OF p r xyz] obtain R where
    R: "m_routers (Cake_BuildNet c) r = Some R" "cake_x R = x" "cake_y R = y" "cake_z R = z"
    and outs: "r_outputs R = (if m_elevator_index c (Cake_Key x y) \<noteq> None then 5 else 3)"
    and plain: "(x, y) \<notin> set (m_elevators c) \<longrightarrow>
          output_channels R
            = [chan (Cake_InplaneChannel c r 0), chan (Cake_InplaneChannel c r 1), eject r]
          \<and> router_ports R = (0, 1, -1, -1, 2)"
    and elev: "\<forall>ei. ei < length (m_elevators c) \<and> m_elevators c ! ei = (x, y) \<longrightarrow>
          output_channels R
            = [chan (Cake_InplaneChannel c r 0), chan (Cake_InplaneChannel c r 1),
               chan (Cake_UpChannel c (int ei) z), chan (Cake_DownChannel c (int ei) z), eject r]
          \<and> router_ports R = (0, 1, 2, 3, 4)"
    by blast
  have vertical: "GetOutputChannel R (cake_port_xp R) = Some (chan (Cake_InplaneChannel c r 0))
      \<and> GetOutputChannel R (cake_port_yp R) = Some (chan (Cake_InplaneChannel c r 1))
      \<and> GetOutputChannel R (cake_port_eject R) = Some (eject r)
      \<and> GetOutputChannel R (cake_port_zup R) = Some (chan (Cake_UpChannel c (int ei) z))
      \<and> sinks (Cake_BuildNet c) (chan (Cake_UpChannel c (int ei) z))
          = [Cake_NodeId c x y ((z + 1) mod m_layers c)]
      \<and> GetOutputChannel R (cake_port_zdn R) = Some (chan (Cake_DownChannel c (int ei) z))
      \<and> sinks (Cake_BuildNet c) (chan (Cake_DownChannel c (int ei) z))
          = [Cake_NodeId c x y ((z - 1 + m_layers c) mod m_layers c)]"
    if e: "ei < length (m_elevators c)" "m_elevators c ! ei = (x, y)" for ei
  proof -
    from e b have stop: "(ei, z) \<in> set (elevator_stops c)" by (simp add: elevator_stops_set)
    note ts = job_to_stops[OF p stop e(2)]
    from p have ip: "m_inplane_channels c = m_size c * 2" by (simp add: cake_parsed_def)
    have chu: "job_chan (up_job c (ei, z)) = Cake_UpChannel c (int ei) z"
      and chd: "job_chan (down_job c (ei, z)) = Cake_DownChannel c (int ei) z"
      by (simp_all add: job_chan_simps Cake_UpChannel_def Cake_DownChannel_def)
    have su: "sinks (Cake_BuildNet c) (chan (Cake_UpChannel c (int ei) z))
          = [Cake_NodeId c x y ((z + 1) mod m_layers c)]"
      using sinks_of_job[OF p wiring_jobs_intros(3)[OF stop] ts(3,4)]
      by (simp only: chu ts(1))
    have sd: "sinks (Cake_BuildNet c) (chan (Cake_DownChannel c (int ei) z))
          = [Cake_NodeId c x y ((z - 1 + m_layers c) mod m_layers c)]"
      using sinks_of_job[OF p wiring_jobs_intros(4)[OF stop] ts(5,6)]
      by (simp only: chd ts(2))
    from e have "(x, y) \<in> set (m_elevators c)" by (metis nth_mem)
    with p have "Cake_Key x y \<in> dom (m_elevator_index c)"
      by (force simp: cake_parsed_def)
    with outs have o: "r_outputs R = 5" by auto
    from elev e have "output_channels R
            = [chan (Cake_InplaneChannel c r 0), chan (Cake_InplaneChannel c r 1),
               chan (Cake_UpChannel c (int ei) z), chan (Cake_DownChannel c (int ei) z), eject r]"
      and "router_ports R = (0, 1, 2, 3, 4)" by blast+
    with o su sd show ?thesis
      by (simp add: router_ports_def GetOutputChannel_def)
  qed
  have flat: "GetOutputChannel R (cake_port_xp R) = Some (chan (Cake_InplaneChannel c r 0))
      \<and> GetOutputChannel R (cake_port_yp R) = Some (chan (Cake_InplaneChannel c r 1))
      \<and> GetOutputChannel R (cake_port_eject R) = Some (eject r)
      \<and> cake_port_zup R = -1 \<and> cake_port_zdn R = -1"
    if n: "(x, y) \<notin> set (m_elevators c)"
  proof -
    from plain n have "output_channels R
            = [chan (Cake_InplaneChannel c r 0), chan (Cake_InplaneChannel c r 1), eject r]"
      and "router_ports R = (0, 1, -1, -1, 2)" by blast+
    moreover from outs have "3 \<le> r_outputs R" by simp
    ultimately show ?thesis by (simp add: router_ports_def GetOutputChannel_def)
  qed
  have common: "GetOutputChannel R (cake_port_xp R) = Some (chan (Cake_InplaneChannel c r 0))
      \<and> GetOutputChannel R (cake_port_yp R) = Some (chan (Cake_InplaneChannel c r 1))
      \<and> GetOutputChannel R (cake_port_eject R) = Some (eject r)"
  proof (cases "(x, y) \<in> set (m_elevators c)")
    case True
    then obtain ei where "ei < length (m_elevators c)" "m_elevators c ! ei = (x, y)"
      by (auto simp: in_set_conv_nth)
    from vertical[OF this] show ?thesis by simp
  next
    case False
    from flat[OF this] show ?thesis by simp
  qed
  from R common sx sy flat vertical show ?thesis by blast
qed

lemma Cake_router_coords:
  assumes "Cake config g = Inr (c, g')" and "0 \<le> r" and "r < m_size c"
    and "m_routers c r = Some R"
  shows "(cake_x R, cake_y R, cake_z R) = Cake_IdToXYZ c r"
proof -
  from assms(1) obtain c2 where b: "c = Cake_BuildNet c2" and p: "cake_parsed c2"
    by (rule Cake_Inr_parsed)
  obtain x y z where xyz: "Cake_IdToXYZ c2 r = (x, y, z)" by (cases "Cake_IdToXYZ c2 r") auto
  from assms(3) b have r: "r < m_size c2" by (simp add: Cake_BuildNet_fields)
  from Cake_router_summary[OF p assms(2) r xyz] obtain R' where
    "m_routers c r = Some R'" "cake_x R' = x" "cake_y R' = y" "cake_z R' = z"
    unfolding b by blast
  with assms(4) xyz show ?thesis by (simp add: b Cake_BuildNet_numbering)
qed

text \<open>
  C1. In every constructed Cake and for every router \<open>R\<close> with id below \<open>_size\<close>:
  the output channel at index \<open>R.xp\<close> ends at router
  \<open>((R.x + 1) mod X, R.y, R.z)\<close> and at no other, the one at \<open>R.yp\<close> at
  \<open>(R.x, (R.y + 1) mod Y, R.z)\<close>; if \<open>(R.x, R.y)\<close> is in the elevator list, the one at
  \<open>R.zup\<close> ends at \<open>(R.x, R.y, (R.z + 1) mod Z)\<close> and the one at \<open>R.zdn\<close> at
  \<open>(R.x, R.y, (R.z - 1 + Z) mod Z)\<close>; and the one at \<open>R.eject\<close> is the ejection channel
  of the router.
\<close>

theorem Cake_port_slots:
  assumes "Cake config g = Inr (c, g')" and "0 \<le> r" and "r < m_size c"
  shows "\<exists>R. m_routers c r = Some R
     \<and> (cake_x R, cake_y R, cake_z R) = Cake_IdToXYZ c r
     \<and> (\<exists>ch. GetOutputChannel R (cake_port_xp R) = Some ch
            \<and> sinks c ch = [Cake_NodeId c ((cake_x R + 1) mod m_x c) (cake_y R) (cake_z R)])
     \<and> (\<exists>ch. GetOutputChannel R (cake_port_yp R) = Some ch
            \<and> sinks c ch = [Cake_NodeId c (cake_x R) ((cake_y R + 1) mod m_y c) (cake_z R)])
     \<and> ((cake_x R, cake_y R) \<in> set (m_elevators c) \<longrightarrow>
          (\<exists>ch. GetOutputChannel R (cake_port_zup R) = Some ch
             \<and> sinks c ch
                 = [Cake_NodeId c (cake_x R) (cake_y R) ((cake_z R + 1) mod m_layers c)])
        \<and> (\<exists>ch. GetOutputChannel R (cake_port_zdn R) = Some ch
             \<and> sinks c ch
                 = [Cake_NodeId c (cake_x R) (cake_y R)
                      ((cake_z R - 1 + m_layers c) mod m_layers c)]))
     \<and> GetOutputChannel R (cake_port_eject R) = Some (eject r)"
proof -
  from assms(1) obtain c2 where b: "c = Cake_BuildNet c2" and p: "cake_parsed c2"
    by (rule Cake_Inr_parsed)
  obtain x y z where xyz: "Cake_IdToXYZ c2 r = (x, y, z)" by (cases "Cake_IdToXYZ c2 r") auto
  from assms(3) b have r: "r < m_size c2" by (simp add: Cake_BuildNet_fields)
  from Cake_router_slots[OF p assms(2) r xyz] obtain R where
    R: "m_routers c r = Some R" "cake_x R = x" "cake_y R = y" "cake_z R = z"
    and xp: "GetOutputChannel R (cake_port_xp R) = Some (chan (Cake_InplaneChannel c2 r 0))"
      "sinks c (chan (Cake_InplaneChannel c2 r 0)) = [Cake_NodeId c2 ((x + 1) mod m_x c2) y z]"
    and yp: "GetOutputChannel R (cake_port_yp R) = Some (chan (Cake_InplaneChannel c2 r 1))"
      "sinks c (chan (Cake_InplaneChannel c2 r 1)) = [Cake_NodeId c2 x ((y + 1) mod m_y c2) z]"
    and ej: "GetOutputChannel R (cake_port_eject R) = Some (eject r)"
    and el: "\<forall>ei. ei < length (m_elevators c2) \<and> m_elevators c2 ! ei = (x, y) \<longrightarrow>
          GetOutputChannel R (cake_port_zup R) = Some (chan (Cake_UpChannel c2 (int ei) z))
          \<and> sinks c (chan (Cake_UpChannel c2 (int ei) z))
              = [Cake_NodeId c2 x y ((z + 1) mod m_layers c2)]
          \<and> GetOutputChannel R (cake_port_zdn R) = Some (chan (Cake_DownChannel c2 (int ei) z))
          \<and> sinks c (chan (Cake_DownChannel c2 (int ei) z))
              = [Cake_NodeId c2 x y ((z - 1 + m_layers c2) mod m_layers c2)]"
    unfolding b by blast
  have f: "m_x c = m_x c2" "m_y c = m_y c2" "m_layers c = m_layers c2"
    "m_elevators c = m_elevators c2" "Cake_NodeId c = Cake_NodeId c2"
    "Cake_IdToXYZ c = Cake_IdToXYZ c2"
    unfolding b by (simp_all add: Cake_BuildNet_fields Cake_BuildNet_numbering)
  have vert: "(\<exists>ch. GetOutputChannel R (cake_port_zup R) = Some ch
             \<and> sinks c ch = [Cake_NodeId c2 x y ((z + 1) mod m_layers c2)])
        \<and> (\<exists>ch. GetOutputChannel R (cake_port_zdn R) = Some ch
             \<and> sinks c ch = [Cake_NodeId c2 x y ((z - 1 + m_layers c2) mod m_layers c2)])"
    if "(x, y) \<in> set (m_elevators c2)"
  proof -
    from that obtain ei where "ei < length (m_elevators c2)" "m_elevators c2 ! ei = (x, y)"
      by (auto simp: in_set_conv_nth)
    with el show ?thesis by blast
  qed
  show ?thesis
    unfolding f
    by (intro exI[of _ R] conjI impI)
       (use R xyz xp yp ej vert in \<open>simp_all only: prod.inject simp_thms\<close>, blast+)
qed


theorem Cake_port_slots_witness:
  "\<not> isl (Cake config_cake_3x3x2 initial_globals)
   \<and> (0::int) \<le> 4 \<and> 4 < m_size (fst (projr (Cake config_cake_3x3x2 initial_globals)))
   \<and> (\<exists>R. m_routers (fst (projr (Cake config_cake_3x3x2 initial_globals))) 4 = Some R
        \<and> (cake_x R, cake_y R, cake_z R) = (1, 1, 0)
        \<and> (cake_x R, cake_y R) \<in> set (m_elevators (fst (projr (Cake config_cake_3x3x2 initial_globals))))
        \<and> (\<exists>ch. GetOutputChannel R (cake_port_xp R) = Some ch
               \<and> sinks (fst (projr (Cake config_cake_3x3x2 initial_globals))) ch = [5])
        \<and> (\<exists>ch. GetOutputChannel R (cake_port_yp R) = Some ch
               \<and> sinks (fst (projr (Cake config_cake_3x3x2 initial_globals))) ch = [7])
        \<and> (\<exists>ch. GetOutputChannel R (cake_port_zup R) = Some ch
               \<and> sinks (fst (projr (Cake config_cake_3x3x2 initial_globals))) ch = [13])
        \<and> (\<exists>ch. GetOutputChannel R (cake_port_zdn R) = Some ch
               \<and> sinks (fst (projr (Cake config_cake_3x3x2 initial_globals))) ch = [13])
        \<and> GetOutputChannel R (cake_port_eject R) = Some (eject 4))"
proof -
  let ?C = "fst (projr (Cake config_cake_3x3x2 initial_globals))"
  note f = Cake_3x3x2_facts
  have r4: "(0::int) \<le> 4" "4 < m_size ?C" by (simp_all add: f)
  from Cake_port_slots[OF Cake_3x3x2_Inr r4] obtain R where
    R: "m_routers ?C 4 = Some R" "(cake_x R, cake_y R, cake_z R) = Cake_IdToXYZ ?C 4"
    and xp: "\<exists>ch. GetOutputChannel R (cake_port_xp R) = Some ch
            \<and> sinks ?C ch = [Cake_NodeId ?C ((cake_x R + 1) mod m_x ?C) (cake_y R) (cake_z R)]"
    and yp: "\<exists>ch. GetOutputChannel R (cake_port_yp R) = Some ch
            \<and> sinks ?C ch = [Cake_NodeId ?C (cake_x R) ((cake_y R + 1) mod m_y ?C) (cake_z R)]"
    and ve: "(cake_x R, cake_y R) \<in> set (m_elevators ?C) \<longrightarrow>
          (\<exists>ch. GetOutputChannel R (cake_port_zup R) = Some ch
             \<and> sinks ?C ch
                 = [Cake_NodeId ?C (cake_x R) (cake_y R) ((cake_z R + 1) mod m_layers ?C)])
        \<and> (\<exists>ch. GetOutputChannel R (cake_port_zdn R) = Some ch
             \<and> sinks ?C ch
                 = [Cake_NodeId ?C (cake_x R) (cake_y R)
                      ((cake_z R - 1 + m_layers ?C) mod m_layers ?C)])"
    and ej: "GetOutputChannel R (cake_port_eject R) = Some (eject 4)"
    by blast
  from R(2) have xyz: "cake_x R = 1" "cake_y R = 1" "cake_z R = 0"
    by (simp_all add: Cake_3x3x2_coords)
  have ids: "Cake_NodeId ?C 2 1 0 = 5" "Cake_NodeId ?C 1 2 0 = 7" "Cake_NodeId ?C 1 1 1 = 13"
    by (simp_all add: Cake_NodeId_def f)
  have el: "(cake_x R, cake_y R) \<in> set (m_elevators ?C)" by (simp add: xyz f)
  from xp yp ve el have
    "\<exists>ch. GetOutputChannel R (cake_port_xp R) = Some ch \<and> sinks ?C ch = [5]"
    "\<exists>ch. GetOutputChannel R (cake_port_yp R) = Some ch \<and> sinks ?C ch = [7]"
    "\<exists>ch. GetOutputChannel R (cake_port_zup R) = Some ch \<and> sinks ?C ch = [13]"
    "\<exists>ch. GetOutputChannel R (cake_port_zdn R) = Some ch \<and> sinks ?C ch = [13]"
    by (simp_all add: xyz f ids)
  with R(1) xyz el ej r4 f(1) show ?thesis by blast
qed

section \<open>Cake: the channel numbering\<close>

text \<open>
  The channel numbering of a constructed Cake with sizes \<open>X\<close>, \<open>Y\<close>, \<open>Z\<close>, by position
  in the elevator list \<open>E\<close> of the network: the in-plane channel of node \<open>n\<close> in
  direction \<open>dim\<close> has id \<open>n * 2 + dim\<close>, which lies in \<open>[0, 2XYZ)\<close> for a node below
  \<open>_size\<close> and \<open>dim\<close> 0 or 1; the vertical channels of position \<open>e\<close> and layer \<open>z\<close>
  have ids \<open>2XYZ + (e * Z + z) * 2\<close> (up) and that plus one (down), which lie in
  \<open>[2XYZ, _channels)\<close> for \<open>e < |E|\<close> and \<open>z < Z\<close>; the number of channels is
  \<open>2XYZ + 2|E|Z\<close>; and these are the channels the build registers: the X+ and Y+
  outputs of router \<open>r\<close> are its in-plane channels 0 and 1, and the Z+ and Z- outputs
  of a router at position \<open>e\<close> of the list in layer \<open>z\<close> are the vertical channels of
  \<open>e\<close> and \<open>z\<close>.
\<close>

lemma Cake_channel_layout_by_position:
  assumes "Cake config g = Inr (c, g')"
  shows "m_channels c
           = 2 * m_x c * m_y c * m_layers c + 2 * int (length (m_elevators c)) * m_layers c
     \<and> Cake_InplaneChannel c n dm = n * 2 + dm
     \<and> (0 \<le> n \<and> n < m_size c \<and> (dm = 0 \<or> dm = 1) \<longrightarrow>
          0 \<le> Cake_InplaneChannel c n dm
          \<and> Cake_InplaneChannel c n dm < 2 * m_x c * m_y c * m_layers c)
     \<and> Cake_UpChannel c e z = 2 * m_x c * m_y c * m_layers c + (e * m_layers c + z) * 2 + 0
     \<and> Cake_DownChannel c e z = 2 * m_x c * m_y c * m_layers c + (e * m_layers c + z) * 2 + 1
     \<and> (0 \<le> e \<and> e < int (length (m_elevators c)) \<and> 0 \<le> z \<and> z < m_layers c \<longrightarrow>
          2 * m_x c * m_y c * m_layers c \<le> Cake_UpChannel c e z
          \<and> Cake_DownChannel c e z < m_channels c)
     \<and> (0 \<le> r \<and> r < m_size c \<longrightarrow>
          (\<exists>R. m_routers c r = Some R
             \<and> GetOutputChannel R (cake_port_xp R) = Some (chan (Cake_InplaneChannel c r 0))
             \<and> GetOutputChannel R (cake_port_yp R) = Some (chan (Cake_InplaneChannel c r 1))
             \<and> (\<forall>ei. ei < length (m_elevators c)
                      \<and> m_elevators c ! ei = (cake_x R, cake_y R) \<longrightarrow>
                  GetOutputChannel R (cake_port_zup R)
                    = Some (chan (Cake_UpChannel c (int ei) (cake_z R)))
                  \<and> GetOutputChannel R (cake_port_zdn R)
                    = Some (chan (Cake_DownChannel c (int ei) (cake_z R))))))"
proof -
  from assms obtain c2 where b: "c = Cake_BuildNet c2" and p: "cake_parsed c2"
    by (rule Cake_Inr_parsed)
  define X Y L E where "X = m_x c" and "Y = m_y c" and "L = m_layers c"
    and "E = int (length (m_elevators c))"
  from p b have pos: "0 < L" and size: "m_size c = X * Y * L"
    and ip: "m_inplane_channels c = X * Y * L * 2"
    and ch: "m_channels c = X * Y * L * 2 + E * L * 2"
    by (simp_all add: cake_parsed_def Cake_BuildNet_fields X_def Y_def L_def E_def)
  have count: "m_channels c = 2 * X * Y * L + 2 * E * L" using ch by simp
  have inpl: "Cake_InplaneChannel c n dm = n * 2 + dm" by (simp add: Cake_InplaneChannel_def)
  have inrng: "0 \<le> n * 2 + dm \<and> n * 2 + dm < 2 * X * Y * L"
    if "0 \<le> n" "n < m_size c" "dm = 0 \<or> dm = 1"
    using that size by auto
  have up: "Cake_UpChannel c e z = 2 * X * Y * L + (e * L + z) * 2 + 0"
    and down: "Cake_DownChannel c e z = 2 * X * Y * L + (e * L + z) * 2 + 1"
    using ip by (simp_all add: Cake_UpChannel_def Cake_DownChannel_def L_def)
  have vrng: "2 * X * Y * L \<le> 2 * X * Y * L + (e * L + z) * 2 + 0
      \<and> 2 * X * Y * L + (e * L + z) * 2 + 1 < 2 * X * Y * L + 2 * E * L"
    if v: "0 \<le> e" "e < E" "0 \<le> z" "z < L"
  proof -
    from mixed_radix_bound[OF v(3,4) v(1,2)]
    have f: "0 \<le> e * L + z" "e * L + z < L * E" by simp_all
    have lin: "m * 2 + 1 < 2 * k" if "m < k" for m k :: int using that by arith
    from f(2) have a: "(e * L + z) * 2 + 1 < 2 * (L * E)" by (rule lin)
    have b': "2 * E * L = 2 * (L * E)" by simp
    have lin2: "w \<le> w + m * 2 + 0 \<and> w + m * 2 + 1 < w + 2 * k"
      if "0 \<le> m" "m * 2 + 1 < 2 * k" for w m k :: int using that by arith
    from f(1) a show ?thesis unfolding b' by (rule lin2)
  qed
  have routers: "\<exists>R. m_routers c r = Some R
             \<and> GetOutputChannel R (cake_port_xp R) = Some (chan (Cake_InplaneChannel c r 0))
             \<and> GetOutputChannel R (cake_port_yp R) = Some (chan (Cake_InplaneChannel c r 1))
             \<and> (\<forall>ei. ei < length (m_elevators c)
                      \<and> m_elevators c ! ei = (cake_x R, cake_y R) \<longrightarrow>
                  GetOutputChannel R (cake_port_zup R)
                    = Some (chan (Cake_UpChannel c (int ei) (cake_z R)))
                  \<and> GetOutputChannel R (cake_port_zdn R)
                    = Some (chan (Cake_DownChannel c (int ei) (cake_z R))))"
    if r: "0 \<le> r" "r < m_size c"
  proof -
    obtain x y z where xyz: "Cake_IdToXYZ c2 r = (x, y, z)" by (cases "Cake_IdToXYZ c2 r") auto
    from r(2) b have r2: "r < m_size c2" by (simp add: Cake_BuildNet_fields)
    from Cake_router_slots[OF p r(1) r2 xyz] obtain R where
      R: "m_routers c r = Some R" "cake_x R = x" "cake_y R = y" "cake_z R = z"
      and xp: "GetOutputChannel R (cake_port_xp R) = Some (chan (Cake_InplaneChannel c2 r 0))"
      and yp: "GetOutputChannel R (cake_port_yp R) = Some (chan (Cake_InplaneChannel c2 r 1))"
      and el: "\<forall>ei. ei < length (m_elevators c2) \<and> m_elevators c2 ! ei = (x, y) \<longrightarrow>
          GetOutputChannel R (cake_port_zup R) = Some (chan (Cake_UpChannel c2 (int ei) z))
          \<and> GetOutputChannel R (cake_port_zdn R) = Some (chan (Cake_DownChannel c2 (int ei) z))"
      unfolding b by blast
    show ?thesis
      unfolding b Cake_BuildNet_numbering Cake_BuildNet_fields
      using R[unfolded b] xp yp el by (intro exI[of _ R]) simp
  qed
  show ?thesis
    unfolding count inpl up down
    using inrng vrng routers
    unfolding X_def Y_def L_def E_def inpl
    by blast
qed


lemma Cake_channel_layout_3x3x2:
  "\<not> isl (Cake config_cake_3x3x2 initial_globals)
   \<and> m_channels (fst (projr (Cake config_cake_3x3x2 initial_globals))) = 40
   \<and> (0::int) \<le> 5 \<and> 5 < m_size (fst (projr (Cake config_cake_3x3x2 initial_globals)))
   \<and> Cake_InplaneChannel (fst (projr (Cake config_cake_3x3x2 initial_globals))) 5 1 = 11
   \<and> (11::int) < 2 * 3 * 3 * 2
   \<and> (0::int) \<le> 0
   \<and> 0 < int (length (m_elevators (fst (projr (Cake config_cake_3x3x2 initial_globals)))))
   \<and> (0::int) \<le> 1 \<and> 1 < m_layers (fst (projr (Cake config_cake_3x3x2 initial_globals)))
   \<and> Cake_UpChannel (fst (projr (Cake config_cake_3x3x2 initial_globals))) 0 1 = 38
   \<and> Cake_DownChannel (fst (projr (Cake config_cake_3x3x2 initial_globals))) 0 1 = 39
   \<and> (0::int) \<le> 4 \<and> 4 < m_size (fst (projr (Cake config_cake_3x3x2 initial_globals)))
   \<and> (\<exists>R. m_routers (fst (projr (Cake config_cake_3x3x2 initial_globals))) 4 = Some R
        \<and> m_elevators (fst (projr (Cake config_cake_3x3x2 initial_globals))) ! 0
            = (cake_x R, cake_y R)
        \<and> GetOutputChannel R (cake_port_xp R) = Some (chan 8)
        \<and> GetOutputChannel R (cake_port_yp R) = Some (chan 9)
        \<and> GetOutputChannel R (cake_port_zup R) = Some (chan 36)
        \<and> GetOutputChannel R (cake_port_zdn R) = Some (chan 37))"
proof -
  let ?C = "fst (projr (Cake config_cake_3x3x2 initial_globals))"
  note f = Cake_3x3x2_facts
  note layout = Cake_channel_layout_by_position[OF Cake_3x3x2_Inr]
  have r4: "(0::int) \<le> 4" "4 < m_size ?C" by (simp_all add: f)
  from layout[of 5 1 0 1 4]
  have a: "m_channels ?C = 40" "Cake_InplaneChannel ?C 5 1 = 11"
    "Cake_UpChannel ?C 0 1 = 38" "Cake_DownChannel ?C 0 1 = 39"
    by (simp_all add: f)
  from layout[of 5 1 0 1 4] r4 obtain R where
    R: "m_routers ?C 4 = Some R"
    and xp: "GetOutputChannel R (cake_port_xp R) = Some (chan (Cake_InplaneChannel ?C 4 0))"
    and yp: "GetOutputChannel R (cake_port_yp R) = Some (chan (Cake_InplaneChannel ?C 4 1))"
    and el: "\<forall>ei. ei < length (m_elevators ?C) \<and> m_elevators ?C ! ei = (cake_x R, cake_y R) \<longrightarrow>
                  GetOutputChannel R (cake_port_zup R)
                    = Some (chan (Cake_UpChannel ?C (int ei) (cake_z R)))
                  \<and> GetOutputChannel R (cake_port_zdn R)
                    = Some (chan (Cake_DownChannel ?C (int ei) (cake_z R)))"
    by blast
  from Cake_router_coords[OF Cake_3x3x2_Inr r4 R]
  have xyz: "cake_x R = 1" "cake_y R = 1" "cake_z R = 0" by (simp_all add: Cake_3x3x2_coords)
  have e0: "0 < length (m_elevators ?C)" "m_elevators ?C ! 0 = (cake_x R, cake_y R)"
    by (simp_all add: f xyz)
  with el have "GetOutputChannel R (cake_port_zup R)
                    = Some (chan (Cake_UpChannel ?C (int 0) (cake_z R)))"
    "GetOutputChannel R (cake_port_zdn R)
                    = Some (chan (Cake_DownChannel ?C (int 0) (cake_z R)))"
    by blast+
  then have v: "GetOutputChannel R (cake_port_zup R) = Some (chan 36)"
    "GetOutputChannel R (cake_port_zdn R) = Some (chan 37)"
    by (simp_all add: xyz Cake_UpChannel_def Cake_DownChannel_def f)
  from xp yp have p: "GetOutputChannel R (cake_port_xp R) = Some (chan 8)"
    "GetOutputChannel R (cake_port_yp R) = Some (chan 9)"
    by (simp_all add: Cake_InplaneChannel_def)
  from R e0 p v have "\<exists>R. m_routers ?C 4 = Some R
        \<and> m_elevators ?C ! 0 = (cake_x R, cake_y R)
        \<and> GetOutputChannel R (cake_port_xp R) = Some (chan 8)
        \<and> GetOutputChannel R (cake_port_yp R) = Some (chan 9)
        \<and> GetOutputChannel R (cake_port_zup R) = Some (chan 36)
        \<and> GetOutputChannel R (cake_port_zdn R) = Some (chan 37)" by blast
  with a f show ?thesis by simp
qed

section \<open>Cake: the elevator list and the declared pairs\<close>

lemma Cake_two_elevators_facts:
  "\<not> isl (Cake config_cake_two_elevators initial_globals)"
  "m_size (fst (projr (Cake config_cake_two_elevators initial_globals))) = 18"
  "m_x (fst (projr (Cake config_cake_two_elevators initial_globals))) = 3"
  "m_y (fst (projr (Cake config_cake_two_elevators initial_globals))) = 3"
  "m_layers (fst (projr (Cake config_cake_two_elevators initial_globals))) = 2"
  "m_channels (fst (projr (Cake config_cake_two_elevators initial_globals))) = 48"
  "m_inplane_channels (fst (projr (Cake config_cake_two_elevators initial_globals))) = 36"
  "m_elevators (fst (projr (Cake config_cake_two_elevators initial_globals)))
     = [(1, 1), (0, 0), (2, 2)]"
  by (simp_all add: example_configs Cake_eval Cake_BuildNet_fields)

lemma Cake_two_elevators_Inr:
  "Cake config_cake_two_elevators initial_globals
     = Inr (fst (projr (Cake config_cake_two_elevators initial_globals)),
            snd (projr (Cake config_cake_two_elevators initial_globals)))"
  using Cake_two_elevators_facts(1)
  by (cases "Cake config_cake_two_elevators initial_globals") simp_all

lemma Cake_two_elevators_coords:
  "Cake_IdToXYZ (fst (projr (Cake config_cake_two_elevators initial_globals))) 8 = (2, 2, 0)"
  "Cake_IdToXYZ (fst (projr (Cake config_cake_two_elevators initial_globals))) 0 = (0, 0, 0)"
  by (simp_all add: Cake_IdToXYZ_def Cake_two_elevators_facts Let_def
      signed_divide_int_def signed_modulo_int_def)

lemma Cake_two_elevators_vertical:
  assumes r: "0 \<le> r" "r < 18"
    and xyz: "Cake_IdToXYZ (fst (projr (Cake config_cake_two_elevators initial_globals))) r
                = (x, y, 0)"
    and e: "ei < 3" "[(1, 1), (0, 0), (2, 2)] ! ei = (x, y)"
  shows "m_routers (fst (projr (Cake config_cake_two_elevators initial_globals))) r \<noteq> None
       \<and> GetOutputChannel
           (the (m_routers (fst (projr (Cake config_cake_two_elevators initial_globals))) r))
           (cake_port_zup
             (the (m_routers (fst (projr (Cake config_cake_two_elevators initial_globals))) r)))
         = Some (chan (36 + int ei * 4))"
proof -
  let ?C = "fst (projr (Cake config_cake_two_elevators initial_globals))"
  note f = Cake_two_elevators_facts
  have r': "0 \<le> r" "r < m_size ?C" using r by (simp_all add: f)
  from Cake_channel_layout_by_position[OF Cake_two_elevators_Inr, of 0 0 0 0 r] r' obtain R where
    R: "m_routers ?C r = Some R"
    and el: "\<forall>ei. ei < length (m_elevators ?C) \<and> m_elevators ?C ! ei = (cake_x R, cake_y R) \<longrightarrow>
                  GetOutputChannel R (cake_port_zup R)
                    = Some (chan (Cake_UpChannel ?C (int ei) (cake_z R)))
                  \<and> GetOutputChannel R (cake_port_zdn R)
                    = Some (chan (Cake_DownChannel ?C (int ei) (cake_z R)))"
    by blast
  from Cake_router_coords[OF Cake_two_elevators_Inr r' R] xyz
  have c: "cake_x R = x" "cake_y R = y" "cake_z R = 0" by simp_all
  from e have "ei < length (m_elevators ?C) \<and> m_elevators ?C ! ei = (cake_x R, cake_y R)"
    by (simp add: f c)
  with el have "GetOutputChannel R (cake_port_zup R)
                    = Some (chan (Cake_UpChannel ?C (int ei) (cake_z R)))" by blast
  then have "GetOutputChannel R (cake_port_zup R) = Some (chan (36 + int ei * 4))"
    by (simp add: c Cake_UpChannel_def f)
  with R show ?thesis by simp
qed

text \<open>
  C5. The claim is that the vertical channels are numbered by elevator index in the
  order of declaration and that there are \<open>2XYZ + 2|E|Z\<close> channels for the declared
  elevators \<open>E\<close>. Between two pairs of \<open>elevator_coords\<close> the braces turn into blanks
  and leave the comma as a token of its own. The elevator loop finds a comma in it at
  position 0 and reads both coordinates from empty strings, that is, as the pair
  \<open>(0, 0)\<close>; the mapping loop below it skips such tokens. With the pairs \<open>(1,1)\<close> and
  \<open>(2,2)\<close> declared on a 3 by 3 by 2 Cake the elevator list is \<open>(1,1)\<close>, \<open>(0,0)\<close>,
  \<open>(2,2)\<close>: there are 48 channels and not \<open>36 + 2 * 2 * 2 = 44\<close>; the Z+ channel of
  router 8 at \<open>(2,2,0)\<close>, the second declared elevator, is 44 and not
  \<open>36 + (1 * 2 + 0) * 2 = 40\<close>; and channel 40 is the Z+ channel of router 0 at
  \<open>(0,0,0)\<close>, which was not declared.
\<close>

theorem Cake_channel_layout_comma_token:
  "stream_tokens (braces_to_spaces ''{{1,1},{2,2}}'') = [''1,1'', '','', ''2,2'']
   \<and> \<not> isl (Cake config_cake_two_elevators initial_globals)
   \<and> m_x (fst (projr (Cake config_cake_two_elevators initial_globals))) = 3
   \<and> m_y (fst (projr (Cake config_cake_two_elevators initial_globals))) = 3
   \<and> m_layers (fst (projr (Cake config_cake_two_elevators initial_globals))) = 2
   \<and> m_elevators (fst (projr (Cake config_cake_two_elevators initial_globals)))
       = [(1, 1), (0, 0), (2, 2)]
   \<and> m_channels (fst (projr (Cake config_cake_two_elevators initial_globals))) = 48
   \<and> Cake_IdToXYZ (fst (projr (Cake config_cake_two_elevators initial_globals))) 8 = (2, 2, 0)
   \<and> m_routers (fst (projr (Cake config_cake_two_elevators initial_globals))) 8 \<noteq> None
   \<and> GetOutputChannel
       (the (m_routers (fst (projr (Cake config_cake_two_elevators initial_globals))) 8))
       (cake_port_zup
         (the (m_routers (fst (projr (Cake config_cake_two_elevators initial_globals))) 8)))
     = Some (chan 44)
   \<and> Cake_IdToXYZ (fst (projr (Cake config_cake_two_elevators initial_globals))) 0 = (0, 0, 0)
   \<and> m_routers (fst (projr (Cake config_cake_two_elevators initial_globals))) 0 \<noteq> None
   \<and> GetOutputChannel
       (the (m_routers (fst (projr (Cake config_cake_two_elevators initial_globals))) 0))
       (cake_port_zup
         (the (m_routers (fst (projr (Cake config_cake_two_elevators initial_globals))) 0)))
     = Some (chan 40)"
proof -
  have tokens: "stream_tokens (braces_to_spaces ''{{1,1},{2,2}}'') = [''1,1'', '','', ''2,2'']"
    by (simp add: string_eval)
  from Cake_two_elevators_vertical[OF _ _ Cake_two_elevators_coords(1), of 2]
  have a: "m_routers (fst (projr (Cake config_cake_two_elevators initial_globals))) 8 \<noteq> None
       \<and> GetOutputChannel
           (the (m_routers (fst (projr (Cake config_cake_two_elevators initial_globals))) 8))
           (cake_port_zup
             (the (m_routers (fst (projr (Cake config_cake_two_elevators initial_globals))) 8)))
         = Some (chan 44)" by simp
  from Cake_two_elevators_vertical[OF _ _ Cake_two_elevators_coords(2), of 1]
  have b: "m_routers (fst (projr (Cake config_cake_two_elevators initial_globals))) 0 \<noteq> None
       \<and> GetOutputChannel
           (the (m_routers (fst (projr (Cake config_cake_two_elevators initial_globals))) 0))
           (cake_port_zup
             (the (m_routers (fst (projr (Cake config_cake_two_elevators initial_globals))) 0)))
         = Some (chan 40)" by simp
  from tokens a b Cake_two_elevators_facts Cake_two_elevators_coords show ?thesis by simp
qed

end
